theory Spec2Isabelle
  imports Main "HOL-Library.Word" "HOL-Library.Signed_Division" "HOL-Library.Log_Nat"
    "HOL-Library.Sublist"
begin

unbundle bit_operations_syntax

section \<open>Bootstrap control plane of the collective communication library\<close>

text \<open>
  The development follows \<^verbatim>\<open>src/bootstrap.cc\<close>. One rank's execution is a
  function of the rank's state and of what its sockets deliver; the ranks of a ring are
  tied together by equating what one rank writes to its send socket with what its
  successor reads from its receive socket.

  Integers: values that travel on the wire (\<^verbatim>\<open>int\<close> length prefixes, peers, tags) are
  \<open>32 word\<close>, read as signed with \<open>sint\<close>. Rank arithmetic inside the loops is on
  \<open>int\<close> with C's truncating remainder \<open>smod\<close>; signed overflow is undefined in C, so
  the model describes the executions in which the sums stay inside the 32-bit range.
  The barrier doubles its mask until the mask reaches the number of ranks: there the
  mask is a \<open>32 word\<close> and every sum is checked against the range of \<^verbatim>\<open>int\<close>.
\<close>

subsection \<open>Results and bytes\<close>

datatype ncclResult_t =
  ncclSuccess | ncclSystemError | ncclInternalError | ncclInvalidArgument

type_synonym byte = "8 word"
type_synonym int32 = "32 word"

text \<open>The four bytes of an \<^verbatim>\<open>int\<close> in host order (little endian), and back.\<close>

definition int_bytes :: "int32 \<Rightarrow> byte list" where
  "int_bytes w = [ucast w, ucast (drop_bit 8 w), ucast (drop_bit 16 w), ucast (drop_bit 24 w)]"

fun bytes_int :: "byte list \<Rightarrow> int32" where
  "bytes_int [] = 0"
| "bytes_int (b # bs) = ucast b OR push_bit 8 (bytes_int bs)"

text \<open>\<^verbatim>\<open>sizeof(int)\<close>.\<close>

definition sizeof_int :: int where
  "sizeof_int = 4"

text \<open>
  A write of the bytes \<open>bs\<close> at offset \<open>off\<close> of the buffer \<open>buf\<close>
  (\<^verbatim>\<open>memcpy(buf + off, bs, length bs)\<close>); the callers keep it inside the buffer.
\<close>

definition store :: "byte list \<Rightarrow> nat \<Rightarrow> byte list \<Rightarrow> byte list" where
  "store buf off bs = take off buf @ bs @ drop (off + length bs) buf"

text \<open>A read of \<open>n\<close> bytes at offset \<open>off\<close>.\<close>

definition load :: "byte list \<Rightarrow> nat \<Rightarrow> nat \<Rightarrow> byte list" where
  "load buf off n = take n (drop off buf)"

subsection \<open>The socket helper\<close>

text \<open>
  Modelled from the spec: the TCP socket helper (\<^verbatim>\<open>ncclSocketInit\<close>,
  \<^verbatim>\<open>ncclSocketListen\<close>, \<^verbatim>\<open>ncclSocketAccept\<close>, \<^verbatim>\<open>ncclSocketConnect\<close>,
  \<^verbatim>\<open>ncclSocketGetAddr\<close>, \<^verbatim>\<open>ncclSocketSend\<close>, \<^verbatim>\<open>ncclSocketRecv\<close>,
  \<^verbatim>\<open>ncclSocketClose\<close>, declared in \<^verbatim>\<open>socket.h\<close>) is consumed as a black box.
  A socket is its address, the magic it was initialised with, the bytes its peer
  delivers (\<open>rx\<close>), the bytes written to it so far (\<open>tx\<close>), for a listening socket
  the connections waiting to be accepted, each with the magic its initiator presents
  and the bytes it will deliver (\<open>backlog\<close>), whether it has been closed, and the
  number of helper calls made on it (\<open>ops\<close>).

  A receive of \<open>n\<close> bytes succeeds when the peer delivers that many; when the stream
  ends before that, it hands over what there is and reports \<open>ncclSystemError\<close>. A
  request of zero or fewer bytes transfers nothing. An accept rejects the waiting
  connections whose magic differs from the listener's and takes the first one that
  agrees; with no such connection it stays blocked until the abort flag is raised and
  then fails, and the model returns that failure.
\<close>

type_synonym ncclSocketAddress = "byte list"

record ncclSocket =
  addr :: ncclSocketAddress
  magic :: "64 word"
  rx :: "byte list"
  tx :: "byte list"
  backlog :: "(64 word \<times> byte list) list"
  closed :: bool
  ops :: nat

definition ncclSocketInit :: "ncclSocketAddress \<Rightarrow> 64 word \<Rightarrow> ncclSocket" where
  "ncclSocketInit a m =
     \<lparr>addr = a, magic = m, rx = [], tx = [], backlog = [], closed = False, ops = 0\<rparr>"

definition ncclSocketConnect :: "ncclSocket \<Rightarrow> ncclResult_t \<times> ncclSocket" where
  "ncclSocketConnect sock =
     (if closed sock then (ncclSystemError, sock\<lparr>ops := Suc (ops sock)\<rparr>)
      else (ncclSuccess, sock\<lparr>ops := Suc (ops sock)\<rparr>))"

definition ncclSocketAccept ::
  "ncclSocket \<Rightarrow> ncclSocket \<Rightarrow> ncclResult_t \<times> ncclSocket \<times> ncclSocket" where
  "ncclSocketAccept sock lsock =
     (if closed lsock then (ncclSystemError, sock, lsock\<lparr>ops := Suc (ops lsock)\<rparr>)
      else case dropWhile (\<lambda>c. fst c \<noteq> magic lsock) (backlog lsock) of
        [] \<Rightarrow> (ncclSystemError, sock, lsock\<lparr>backlog := [], ops := Suc (ops lsock)\<rparr>)
      | c # cs \<Rightarrow> (ncclSuccess, sock\<lparr>rx := snd c, ops := Suc (ops sock)\<rparr>,
                   lsock\<lparr>backlog := cs, ops := Suc (ops lsock)\<rparr>))"

definition ncclSocketSend :: "ncclSocket \<Rightarrow> byte list \<Rightarrow> ncclResult_t \<times> ncclSocket" where
  "ncclSocketSend sock bs =
     (if closed sock then (ncclSystemError, sock\<lparr>ops := Suc (ops sock)\<rparr>)
      else (ncclSuccess, sock\<lparr>tx := tx sock @ bs, ops := Suc (ops sock)\<rparr>))"

definition ncclSocketRecv :: "ncclSocket \<Rightarrow> int \<Rightarrow> ncclResult_t \<times> byte list \<times> ncclSocket" where
  "ncclSocketRecv sock n =
     (if closed sock then (ncclSystemError, [], sock\<lparr>ops := Suc (ops sock)\<rparr>)
      else if nat n \<le> length (rx sock)
      then (ncclSuccess, take (nat n) (rx sock),
            sock\<lparr>rx := drop (nat n) (rx sock), ops := Suc (ops sock)\<rparr>)
      else (ncclSystemError, rx sock, sock\<lparr>rx := [], ops := Suc (ops sock)\<rparr>))"

definition ncclSocketClose :: "ncclSocket \<Rightarrow> ncclResult_t \<times> ncclSocket" where
  "ncclSocketClose sock = (ncclSuccess, sock\<lparr>closed := True, ops := Suc (ops sock)\<rparr>)"

subsection \<open>Framed transfers\<close>

text \<open>
  \<^verbatim>\<open>bootstrapNetSend(sock, data, size)\<close>: the length, then \<open>size\<close> bytes of \<open>data\<close>.
  \<open>data\<close> is the memory at the pointer; the helper reads its first \<open>size\<close> bytes.
\<close>

definition bootstrapNetSend :: "ncclSocket \<Rightarrow> byte list \<Rightarrow> int \<Rightarrow> ncclResult_t \<times> ncclSocket" where
  "bootstrapNetSend sock data sz =
     (case ncclSocketSend sock (int_bytes (word_of_int sz)) of
        (r1, sock1) \<Rightarrow>
          if r1 \<noteq> ncclSuccess then (r1, sock1)
          else ncclSocketSend sock1 (take (nat sz) data))"

text \<open>
  \<^verbatim>\<open>bootstrapNetRecv(sock, data, size)\<close>: \<open>data\<close> is the destination memory; the
  result carries its new contents.
\<close>

definition bootstrapNetRecv ::
  "ncclSocket \<Rightarrow> byte list \<Rightarrow> int \<Rightarrow> ncclResult_t \<times> byte list \<times> ncclSocket" where
  "bootstrapNetRecv sock data sz =
     (case ncclSocketRecv sock sizeof_int of
        (r1, lenb, sock1) \<Rightarrow>
          if r1 \<noteq> ncclSuccess then (r1, data, sock1)
          else let recvSize = sint (bytes_int lenb) in
            if recvSize > sz then (ncclInternalError, data, sock1)
            else (case ncclSocketRecv sock1 (min recvSize sz) of
                    (r2, bs, sock2) \<Rightarrow>
                      if r2 \<noteq> ncclSuccess then (r2, store data 0 bs, sock2)
                      else (ncclSuccess, store data 0 bs, sock2)))"

subsection \<open>Heap objects and undefined behaviour\<close>

text \<open>
  A C pointer to a heap object: null, live with its contents, or released. A released
  pointer keeps the contents the object had when it was released, so that what a
  teardown did just before the release stays visible.
\<close>

datatype 'a ptr = Null | Live 'a | Freed 'a

text \<open>\<^verbatim>\<open>free(p)\<close>: nothing for a null pointer; releasing twice is undefined (\<open>None\<close>).\<close>

fun free :: "'a ptr \<Rightarrow> 'a ptr option" where
  "free Null = Some Null"
| "free (Live x) = Some (Freed x)"
| "free (Freed x) = None"

text \<open>
  What a call does: it returns a result together with the memory it leaves, or its
  behaviour is undefined in C (a null or dangling dereference, an index outside an
  array).
\<close>

datatype 'a outcome = Undefined | Returns ncclResult_t 'a

subsection \<open>The bootstrap state\<close>

text \<open>\<^verbatim>\<open>struct unexConn\<close>; the \<^verbatim>\<open>next\<close> pointers are the list itself.\<close>

record unexConn =
  unex_peer :: int
  unex_tag :: int
  unex_sock :: ncclSocket

text \<open>
  The head pointer of the queue of unexpected connections. \<open>Linked q\<close> leads to the
  chain of nodes \<open>q\<close>, with \<open>Linked []\<close> the null pointer. \<open>Released q\<close> is what
  \<^verbatim>\<open>unexpectedFree\<close> leaves: the nodes \<open>q\<close> have been given back with \<^verbatim>\<open>free\<close> and
  the head still holds the address of the first of them. It is not null, and reading a
  node through it is undefined.
\<close>

datatype unexList = Linked "unexConn list" | Released "unexConn list"

text \<open>
  \<^verbatim>\<open>struct bootstrapState\<close>. \<open>abortFlag\<close> is the value found behind the
  \<^verbatim>\<open>volatile uint32_t*\<close> when it is read.
\<close>

record bootstrapState =
  listenSock :: ncclSocket
  ringRecvSocket :: ncclSocket
  ringSendSocket :: ncclSocket
  peerCommAddresses :: "ncclSocketAddress list ptr"
  peerProxyAddresses :: "ncclSocketAddress list ptr"
  unexpectedConnections :: unexList
  cudaDev :: int
  st_rank :: int
  st_nranks :: int
  st_magic :: "64 word"
  abortFlag :: "32 word"

subsection \<open>The queue of unexpected connections\<close>

text \<open>The walk to the last node of \<^verbatim>\<open>unexpectedEnqueue\<close>.\<close>

fun enqueue_walk :: "unexConn list \<Rightarrow> unexConn \<Rightarrow> unexConn list" where
  "enqueue_walk [] unex = [unex]"
| "enqueue_walk (e # es) unex = e # enqueue_walk es unex"

text \<open>
  \<^verbatim>\<open>unexpectedEnqueue\<close>. With a head that points to released nodes the walk reads
  \<^verbatim>\<open>list->next\<close> in released memory.
\<close>

definition unexpectedEnqueue ::
  "bootstrapState \<Rightarrow> int \<Rightarrow> int \<Rightarrow> ncclSocket \<Rightarrow> bootstrapState outcome" where
  "unexpectedEnqueue state p t sock =
     (let unex = \<lparr>unex_peer = p, unex_tag = t, unex_sock = sock\<rparr> in
      case unexpectedConnections state of
        Linked q \<Rightarrow>
          Returns ncclSuccess (state\<lparr>unexpectedConnections := Linked (enqueue_walk q unex)\<rparr>)
      | Released q \<Rightarrow> Undefined)"

text \<open>
  The scan of \<^verbatim>\<open>unexpectedDequeue\<close>: the nodes passed stay linked in front of the
  rest; the first node with the peer and the tag is unlinked and its socket handed out.
\<close>

fun dequeue_scan :: "unexConn list \<Rightarrow> int \<Rightarrow> int \<Rightarrow> unexConn list \<times> ncclSocket option" where
  "dequeue_scan [] p t = ([], None)"
| "dequeue_scan (e # es) p t =
     (if unex_peer e = p \<and> unex_tag e = t then (es, Some (unex_sock e))
      else case dequeue_scan es p t of (es', found) \<Rightarrow> (e # es', found))"

text \<open>
  \<^verbatim>\<open>unexpectedDequeue\<close>. With a head that points to released nodes the scan reads
  \<^verbatim>\<open>elem->peer\<close> in released memory.
\<close>

definition unexpectedDequeue ::
  "bootstrapState \<Rightarrow> int \<Rightarrow> int \<Rightarrow> (bootstrapState \<times> ncclSocket option) outcome" where
  "unexpectedDequeue state p t =
     (case unexpectedConnections state of
        Linked q \<Rightarrow>
          (case dequeue_scan q p t of
             (q', found) \<Rightarrow>
               Returns ncclSuccess (state\<lparr>unexpectedConnections := Linked q'\<rparr>, found))
      | Released q \<Rightarrow> Undefined)"

text \<open>
  \<^verbatim>\<open>unexpectedFree\<close> gives every node back with \<^verbatim>\<open>free\<close>. It closes none of their
  sockets and does not reset the head pointer of the state, which is left pointing to the
  released first node. Over a null head it does nothing. Over a head that already points
  to released nodes it reads \<^verbatim>\<open>elem->next\<close> in released memory and releases the node
  a second time (\<open>None\<close>).
\<close>

definition unexpectedFree :: "bootstrapState \<Rightarrow> bootstrapState option" where
  "unexpectedFree state =
     (case unexpectedConnections state of
        Linked q \<Rightarrow>
          Some (if q = [] then state else state\<lparr>unexpectedConnections := Released q\<rparr>)
      | Released q \<Rightarrow> None)"

subsection \<open>Close and Abort\<close>

text \<open>The three \<^verbatim>\<open>ncclSocketClose\<close> calls shared by Close and Abort, each checked.\<close>

definition close_sockets :: "bootstrapState \<Rightarrow> ncclResult_t \<times> bootstrapState" where
  "close_sockets state =
     (case ncclSocketClose (listenSock state) of (r1, l) \<Rightarrow>
        let s1 = state\<lparr>listenSock := l\<rparr> in
        if r1 \<noteq> ncclSuccess then (r1, s1)
        else case ncclSocketClose (ringSendSocket s1) of (r2, rs) \<Rightarrow>
          let s2 = s1\<lparr>ringSendSocket := rs\<rparr> in
          if r2 \<noteq> ncclSuccess then (r2, s2)
          else case ncclSocketClose (ringRecvSocket s2) of (r3, rr) \<Rightarrow>
            let s3 = s2\<lparr>ringRecvSocket := rr\<rparr> in
            if r3 \<noteq> ncclSuccess then (r3, s3) else (ncclSuccess, s3))"

text \<open>
  \<^verbatim>\<open>bootstrapClose\<close> from the first \<^verbatim>\<open>ncclSocketClose\<close> on: the three sockets, then
  \<^verbatim>\<open>free(state->peerCommAddresses)\<close> and \<^verbatim>\<open>free(state)\<close>.
\<close>

definition close_and_free :: "bootstrapState \<Rightarrow> bootstrapState ptr outcome" where
  "close_and_free state =
     (case close_sockets state of (r, s3) \<Rightarrow>
        if r \<noteq> ncclSuccess then Returns r (Live s3)
        else case free (peerCommAddresses s3) of
          None \<Rightarrow> Undefined
        | Some pc \<Rightarrow> Returns ncclSuccess (Freed (s3\<lparr>peerCommAddresses := pc\<rparr>)))"

text \<open>
  \<^verbatim>\<open>bootstrapClose\<close>. The test \<^verbatim>\<open>state->unexpectedConnections != NULL\<close> is on the head
  pointer, so it also holds for a head that points to released nodes. On the error
  return the state stays live, with the nodes of its queue released.
\<close>

fun bootstrapClose :: "bootstrapState ptr \<Rightarrow> bootstrapState ptr outcome" where
  "bootstrapClose (Live state) =
     (if unexpectedConnections state \<noteq> Linked [] then
        (case unexpectedFree state of
           None \<Rightarrow> Undefined
         | Some s0 \<Rightarrow>
             if abortFlag s0 = 0 then Returns ncclInternalError (Live s0)
             else close_and_free s0)
      else close_and_free state)"
| "bootstrapClose _ = Undefined"

fun bootstrapAbort :: "bootstrapState ptr \<Rightarrow> bootstrapState ptr outcome" where
  "bootstrapAbort Null = Returns ncclSuccess Null"
| "bootstrapAbort (Freed state) = Undefined"
| "bootstrapAbort (Live state) =
     (case close_sockets state of (r, s3) \<Rightarrow>
        if r \<noteq> ncclSuccess then Returns r (Live s3)
        else case free (peerCommAddresses s3) of
          None \<Rightarrow> Undefined
        | Some pc \<Rightarrow>
           (case free (peerProxyAddresses s3) of
              None \<Rightarrow> Undefined
            | Some pp \<Rightarrow>
                Returns ncclSuccess
                  (Freed (s3\<lparr>peerCommAddresses := pc, peerProxyAddresses := pp\<rparr>))))"

subsection \<open>Tagged point-to-point transfers\<close>

text \<open>Reading \<^verbatim>\<open>tbl[i]\<close> from a heap array; outside the array there is no value.\<close>

definition addr_at :: "'a list ptr \<Rightarrow> int \<Rightarrow> 'a option" where
  "addr_at tbl i =
     (case tbl of
        Live as \<Rightarrow> if 0 \<le> i \<and> i < int (length as) then Some (as ! nat i) else None
      | _ \<Rightarrow> None)"

text \<open>The \<^verbatim>\<open>exit:\<close> label of Send and Recv: close the socket, then return.\<close>

definition p2p_exit :: "ncclResult_t \<Rightarrow> ncclSocket \<Rightarrow> ncclResult_t \<times> ncclSocket" where
  "p2p_exit ret sock =
     (case ncclSocketClose sock of (rc, sock') \<Rightarrow>
        if rc \<noteq> ncclSuccess then (rc, sock') else (ret, sock'))"

text \<open>
  \<^verbatim>\<open>bootstrapSend\<close>. The state is only read. The result carries the connection the
  call opened, as the call left it.
\<close>

definition bootstrapSend ::
  "bootstrapState \<Rightarrow> int \<Rightarrow> int \<Rightarrow> byte list \<Rightarrow> int \<Rightarrow> ncclSocket outcome" where
  "bootstrapSend state peer tag data sz =
     (case addr_at (peerCommAddresses state) peer of
        None \<Rightarrow> Undefined
      | Some a \<Rightarrow>
         (case ncclSocketConnect (ncclSocketInit a (st_magic state)) of (r1, sock1) \<Rightarrow>
            if r1 \<noteq> ncclSuccess then case_prod Returns (p2p_exit r1 sock1)
            else case bootstrapNetSend sock1 (int_bytes (word_of_int (st_rank state))) sizeof_int of
              (r2, sock2) \<Rightarrow>
                if r2 \<noteq> ncclSuccess then case_prod Returns (p2p_exit r2 sock2)
                else case bootstrapNetSend sock2 (int_bytes (word_of_int tag)) sizeof_int of
                  (r3, sock3) \<Rightarrow>
                    if r3 \<noteq> ncclSuccess then case_prod Returns (p2p_exit r3 sock3)
                    else case bootstrapNetSend sock3 data sz of
                      (r4, sock4) \<Rightarrow> case_prod Returns (p2p_exit r4 sock4)))"

text \<open>
  The \<^verbatim>\<open>exit:\<close> label of \<^verbatim>\<open>bootstrapRecv\<close>, with the destination memory and the state
  as they are at that point.
\<close>

definition recv_exit ::
  "ncclResult_t \<Rightarrow> ncclSocket \<Rightarrow> byte list \<Rightarrow> bootstrapState \<Rightarrow> (byte list \<times> bootstrapState) outcome" where
  "recv_exit ret sock data state = Returns (fst (p2p_exit ret sock)) (data, state)"

text \<open>
  The accept loop of \<^verbatim>\<open>bootstrapRecv\<close>. The locals \<^verbatim>\<open>newPeer\<close> and \<^verbatim>\<open>newTag\<close> are
  declared outside the loop and never initialised: each is modelled by the bytes of it
  that have been written so far (a prefix, as every write starts at its first byte).
  Reading one of them before all four bytes are written is undefined.
\<close>

function accept_loop ::
  "bootstrapState \<Rightarrow> int \<Rightarrow> int \<Rightarrow> byte list \<Rightarrow> int \<Rightarrow> byte list \<Rightarrow> byte list
     \<Rightarrow> (byte list \<times> bootstrapState) outcome" where
  "accept_loop state peer tag data sz newPeer newTag =
     (case ncclSocketAccept (ncclSocketInit [] 0) (listenSock state) of (r1, sock1, l) \<Rightarrow>
        if r1 \<noteq> ncclSuccess then recv_exit r1 sock1 data (state\<lparr>listenSock := l\<rparr>)
        else case bootstrapNetRecv sock1 newPeer sizeof_int of (r2, newPeer', sock2) \<Rightarrow>
          if r2 \<noteq> ncclSuccess then recv_exit r2 sock2 data (state\<lparr>listenSock := l\<rparr>)
          else case bootstrapNetRecv sock2 newTag sizeof_int of (r3, newTag', sock3) \<Rightarrow>
            if r3 \<noteq> ncclSuccess then recv_exit r3 sock3 data (state\<lparr>listenSock := l\<rparr>)
            else if length newPeer' < 4 \<or> length newTag' < 4 then Undefined
            else if sint (bytes_int newPeer') = peer \<and> sint (bytes_int newTag') = tag
            then case bootstrapNetRecv sock3 data sz of (r4, data', sock4) \<Rightarrow>
                   recv_exit r4 sock4 data' (state\<lparr>listenSock := l\<rparr>)
            else case unexpectedEnqueue (state\<lparr>listenSock := l\<rparr>)
                        (sint (bytes_int newPeer')) (sint (bytes_int newTag')) sock3 of
                   Undefined \<Rightarrow> Undefined
                 | Returns r5 state' \<Rightarrow>
                     if r5 \<noteq> ncclSuccess then recv_exit r5 sock3 data state'
                     else accept_loop state' peer tag data sz newPeer' newTag')"
  by pat_completeness auto

termination
proof (relation "measure (\<lambda>(state, peer, tag, data, sz, newPeer, newTag).
                   length (backlog (listenSock state)))", goal_cases)
  case 1
  show ?case by simp
next
  case 2
  have acc: "length (backlog l') < length (backlog l)"
    if a: "ncclSocketAccept s l = (ncclSuccess, s', l')" for s l s' l'
  proof -
    obtain c cs where d: "dropWhile (\<lambda>c. fst c \<noteq> magic l) (backlog l) = c # cs"
      and l': "backlog l' = cs"
      using a by (auto simp: ncclSocketAccept_def split: if_splits list.splits)
    have "length (c # cs) \<le> length (backlog l)"
      using length_dropWhile_le [of "\<lambda>c. fst c \<noteq> magic l" "backlog l"] d by simp
    then show ?thesis using l' by simp
  qed
  from 2 show ?case
    by (auto simp: unexpectedEnqueue_def Let_def split: unexList.splits dest: acc [OF sym])
qed


text \<open>\<^verbatim>\<open>bootstrapRecv\<close>: the queue first, then new connections.\<close>

definition bootstrapRecv ::
  "bootstrapState \<Rightarrow> int \<Rightarrow> int \<Rightarrow> byte list \<Rightarrow> int \<Rightarrow> (byte list \<times> bootstrapState) outcome" where
  "bootstrapRecv state peer tag data sz =
     (case unexpectedDequeue state peer tag of
        Undefined \<Rightarrow> Undefined
      | Returns r0 (state0, found) \<Rightarrow>
          if r0 \<noteq> ncclSuccess then Returns r0 (data, state0)
          else case found of
            Some sock \<Rightarrow>
              (case bootstrapNetRecv sock data sz of (r, data', sock') \<Rightarrow>
                 recv_exit r sock' data' state0)
          | None \<Rightarrow> accept_loop state0 peer tag data sz [] [])"

subsection \<open>Collectives over tagged transfers\<close>

text \<open>Reading \<^verbatim>\<open>ranks[i]\<close> from the caller's array.\<close>

definition ranks_at :: "int list \<Rightarrow> int \<Rightarrow> int option" where
  "ranks_at ranks i =
     (if 0 \<le> i \<and> i < int (length ranks) then Some (ranks ! nat i) else None)"

text \<open>
  The memory at \<^verbatim>\<open>data + off\<close>, and the buffer after the memory at that pointer has
  become \<open>mem\<close>. A pointer outside the buffer has no memory.
\<close>

definition mem_at :: "byte list \<Rightarrow> int \<Rightarrow> byte list option" where
  "mem_at data off =
     (if 0 \<le> off \<and> off \<le> int (length data) then Some (drop (nat off) data) else None)"

definition mem_put :: "byte list \<Rightarrow> int \<Rightarrow> byte list \<Rightarrow> byte list" where
  "mem_put data off mem = take (nat off) data @ mem"

text \<open>
  A Send leaves nothing in the state: what it does is seen by the network only. The
  collectives below therefore carry, next to the state, the connections they have opened
  so far (\<open>conns\<close>), in order and as the calls left them.

  The loop of \<^verbatim>\<open>bootstrapBarrier\<close>, from a given mask \<open>msk\<close>; \<open>None\<close> is a loop that
  never ends. \<open>data\<close> is the local \<^verbatim>\<open>int data[1]\<close>, which the source does not
  initialise: its first contents are a parameter.

  The mask is the \<^verbatim>\<open>int mask\<close> of the source, 32 bits wide and read as signed;
  \<^verbatim>\<open>mask <<= 1\<close> keeps the low 32 bits, so that \<open>2 ^ 30\<close> is followed by
  \<^verbatim>\<open>INT_MIN\<close>. The sums \<^verbatim>\<open>rank - mask\<close>, \<^verbatim>\<open>rank - mask + nranks\<close> and
  \<^verbatim>\<open>rank + mask\<close> are signed additions: a sum outside the range of \<^verbatim>\<open>int\<close> is undefined.
\<close>

definition int_range :: "int \<Rightarrow> bool" where
  "int_range x \<longleftrightarrow> - (2 ^ 31) \<le> x \<and> x < 2 ^ 31"

partial_function (option) barrier_loop ::
  "bootstrapState \<Rightarrow> int list \<Rightarrow> int \<Rightarrow> int \<Rightarrow> int \<Rightarrow> byte list \<Rightarrow> int32 \<Rightarrow> ncclSocket list
     \<Rightarrow> (bootstrapState \<times> ncclSocket list) outcome option" where
  "barrier_loop state ranks rank nranks tag data msk conns =
     (if sint msk < nranks then
        if \<not> (int_range (rank - sint msk) \<and> int_range (rank - sint msk + nranks)
                \<and> int_range (rank + sint msk))
        then Some Undefined
        else
        let src = (rank - sint msk + nranks) smod nranks;
            dst = (rank + sint msk) smod nranks
        in case ranks_at ranks dst of
             None \<Rightarrow> Some Undefined
           | Some pd \<Rightarrow>
              (case bootstrapSend state pd tag data sizeof_int of
                 Undefined \<Rightarrow> Some Undefined
               | Returns r1 c \<Rightarrow>
                   if r1 \<noteq> ncclSuccess then Some (Returns r1 (state, conns @ [c]))
                   else case ranks_at ranks src of
                     None \<Rightarrow> Some Undefined
                   | Some ps \<Rightarrow>
                      (case bootstrapRecv state ps tag data sizeof_int of
                         Undefined \<Rightarrow> Some Undefined
                       | Returns r2 ds \<Rightarrow>
                           if r2 \<noteq> ncclSuccess then Some (Returns r2 (snd ds, conns @ [c]))
                           else barrier_loop (snd ds) ranks rank nranks tag (fst ds)
                                  (push_bit 1 msk) (conns @ [c])))
      else Some (Returns ncclSuccess (state, conns)))"

definition bootstrapBarrier ::
  "bootstrapState \<Rightarrow> int list \<Rightarrow> int \<Rightarrow> int \<Rightarrow> int \<Rightarrow> byte list
     \<Rightarrow> (bootstrapState \<times> ncclSocket list) outcome option" where
  "bootstrapBarrier state ranks rank nranks tag data =
     (if nranks = 1 then Some (Returns ncclSuccess (state, []))
      else barrier_loop state ranks rank nranks tag data 1 [])"

text \<open>The loop of \<^verbatim>\<open>bootstrapIntraNodeAllGather\<close>, from a given \<open>i\<close>.\<close>

function intra_allgather_loop ::
  "bootstrapState \<Rightarrow> int list \<Rightarrow> int \<Rightarrow> int \<Rightarrow> byte list \<Rightarrow> int \<Rightarrow> int \<Rightarrow> ncclSocket list
     \<Rightarrow> (byte list \<times> bootstrapState \<times> ncclSocket list) outcome" where
  "intra_allgather_loop state ranks rank nranks data sz i conns =
     (if i < nranks then
        let src = (rank - i + nranks) smod nranks;
            dst = (rank + i) smod nranks
        in case ranks_at ranks dst of
             None \<Rightarrow> Undefined
           | Some pd \<Rightarrow>
              (case mem_at data (rank * sz) of
                 None \<Rightarrow> Undefined
               | Some own \<Rightarrow>
                  (case bootstrapSend state pd i own sz of
                     Undefined \<Rightarrow> Undefined
                   | Returns r1 c \<Rightarrow>
                       if r1 \<noteq> ncclSuccess then Returns r1 (data, state, conns @ [c])
                       else case ranks_at ranks src of
                         None \<Rightarrow> Undefined
                       | Some ps \<Rightarrow>
                          (case mem_at data (src * sz) of
                             None \<Rightarrow> Undefined
                           | Some dest \<Rightarrow>
                              (case bootstrapRecv state ps i dest sz of
                                 Undefined \<Rightarrow> Undefined
                               | Returns r2 ds \<Rightarrow>
                                   if r2 \<noteq> ncclSuccess
                                   then Returns r2 (mem_put data (src * sz) (fst ds), snd ds,
                                                    conns @ [c])
                                   else intra_allgather_loop (snd ds) ranks rank nranks
                                          (mem_put data (src * sz) (fst ds)) sz (i + 1)
                                          (conns @ [c])))))
      else Returns ncclSuccess (data, state, conns))"
  by pat_completeness auto
termination
  by (relation "measure (\<lambda>(state, ranks, rank, nranks, data, sz, i, conns). nat (nranks - i))")
     auto

definition bootstrapIntraNodeAllGather ::
  "bootstrapState \<Rightarrow> int list \<Rightarrow> int \<Rightarrow> int \<Rightarrow> byte list \<Rightarrow> int
     \<Rightarrow> (byte list \<times> bootstrapState \<times> ncclSocket list) outcome" where
  "bootstrapIntraNodeAllGather state ranks rank nranks allData sz =
     (if nranks = 1 then Returns ncclSuccess (allData, state, [])
      else intra_allgather_loop state ranks rank nranks allData sz 1 [])"

text \<open>The sending loop of the root in \<^verbatim>\<open>bootstrapIntraNodeBroadcast\<close>.\<close>

function bcast_loop ::
  "bootstrapState \<Rightarrow> int list \<Rightarrow> int \<Rightarrow> int \<Rightarrow> byte list \<Rightarrow> int \<Rightarrow> int \<Rightarrow> ncclSocket list
     \<Rightarrow> (byte list \<times> bootstrapState \<times> ncclSocket list) outcome" where
  "bcast_loop state ranks nranks rootRank bcastData sz i conns =
     (if i < nranks then
        if i \<noteq> rootRank then
          case ranks_at ranks i of
            None \<Rightarrow> Undefined
          | Some p \<Rightarrow>
             (case bootstrapSend state p p bcastData sz of
                Undefined \<Rightarrow> Undefined
              | Returns r c \<Rightarrow>
                  if r \<noteq> ncclSuccess then Returns r (bcastData, state, conns @ [c])
                  else bcast_loop state ranks nranks rootRank bcastData sz (i + 1) (conns @ [c]))
        else bcast_loop state ranks nranks rootRank bcastData sz (i + 1) conns
      else Returns ncclSuccess (bcastData, state, conns))"
  by pat_completeness auto
termination
  by (relation "measure (\<lambda>(state, ranks, nranks, rootRank, bcastData, sz, i, conns).
                  nat (nranks - i))") auto

definition bootstrapIntraNodeBroadcast ::
  "bootstrapState \<Rightarrow> int list \<Rightarrow> int \<Rightarrow> int \<Rightarrow> int \<Rightarrow> byte list \<Rightarrow> int
     \<Rightarrow> (byte list \<times> bootstrapState \<times> ncclSocket list) outcome" where
  "bootstrapIntraNodeBroadcast state ranks rank nranks rootRank bcastData sz =
     (if nranks = 1 then Returns ncclSuccess (bcastData, state, [])
      else if rank = rootRank then bcast_loop state ranks nranks rootRank bcastData sz 0 []
      else case ranks_at ranks rootRank of
        None \<Rightarrow> Undefined
      | Some pr \<Rightarrow>
         (case ranks_at ranks rank of
            None \<Rightarrow> Undefined
          | Some t \<Rightarrow>
             (case bootstrapRecv state pr t bcastData sz of
                Undefined \<Rightarrow> Undefined
              | Returns r ds \<Rightarrow> Returns r (fst ds, snd ds, []))))"

subsection \<open>Ring all-gather\<close>

text \<open>
  One iteration of the loop of \<^verbatim>\<open>bootstrapAllGather\<close>: the slice \<open>sslice\<close> goes out on
  the send socket, then a frame from the receive socket goes into the slice \<open>rslice\<close>.
  The slice numbers are computed on \<^verbatim>\<open>int\<close> and converted to \<^verbatim>\<open>size_t\<close>; a negative
  number becomes a pointer outside the buffer.
\<close>

definition allgather_body ::
  "bootstrapState \<Rightarrow> byte list \<Rightarrow> int \<Rightarrow> int \<Rightarrow> (byte list \<times> bootstrapState) outcome" where
  "allgather_body state data sz i =
     (let rank = st_rank state; nranks = st_nranks state;
          rslice = (rank - i - 1 + nranks) smod nranks;
          sslice = (rank - i + nranks) smod nranks
      in case mem_at data (sslice * sz) of
           None \<Rightarrow> Undefined
         | Some src \<Rightarrow>
            (case bootstrapNetSend (ringSendSocket state) src sz of (r1, ss) \<Rightarrow>
               if r1 \<noteq> ncclSuccess then Returns r1 (data, state\<lparr>ringSendSocket := ss\<rparr>)
               else case mem_at data (rslice * sz) of
                 None \<Rightarrow> Undefined
               | Some dest \<Rightarrow>
                  (case bootstrapNetRecv (ringRecvSocket state) dest sz of (r2, mem, rs) \<Rightarrow>
                     Returns r2 (mem_put data (rslice * sz) mem,
                                 state\<lparr>ringSendSocket := ss, ringRecvSocket := rs\<rparr>))))"

function allgather_loop ::
  "bootstrapState \<Rightarrow> byte list \<Rightarrow> int \<Rightarrow> int \<Rightarrow> (byte list \<times> bootstrapState) outcome" where
  "allgather_loop state data sz i =
     (if i < st_nranks state - 1 then
        case allgather_body state data sz i of
          Undefined \<Rightarrow> Undefined
        | Returns r ds \<Rightarrow>
            if r \<noteq> ncclSuccess then Returns r ds
            else allgather_loop (snd ds) (fst ds) sz (i + 1)
      else Returns ncclSuccess (data, state))"
  by pat_completeness auto
termination
proof (relation "measure (\<lambda>(state, data, sz, i). nat (st_nranks state - i))", goal_cases)
  case 1
  show ?case by simp
next
  case 2
  have nr: "st_nranks (snd ds) = st_nranks st"
    if "allgather_body st d z j = Returns r ds" for st d z j r ds
    using that
    by (auto simp: allgather_body_def Let_def split: option.splits prod.splits if_splits)
  from 2 nr [OF 2(2)] show ?case by simp
qed

definition bootstrapAllGather ::
  "bootstrapState \<Rightarrow> byte list \<Rightarrow> int \<Rightarrow> (byte list \<times> bootstrapState) outcome" where
  "bootstrapAllGather state allData sz = allgather_loop state allData sz 0"

subsection \<open>Rank initialisation\<close>

text \<open>
  Modelled from the spec: \<^verbatim>\<open>union ncclSocketAddress\<close> is declared in \<^verbatim>\<open>socket.h\<close>,
  which is not under \<^verbatim>\<open>src/\<close>. It holds an IPv4 or an IPv6 endpoint; its size is taken
  to be that of \<^verbatim>\<open>struct sockaddr_in6\<close>. The properties use only that it is positive.
\<close>

definition sizeof_addr :: nat where
  "sizeof_addr = 28"

text \<open>
  Modelled from the spec: \<^verbatim>\<open>ncclSocketGetAddr\<close> copies the address of the socket,
  \<^verbatim>\<open>sizeof(union ncclSocketAddress)\<close> bytes. \<^verbatim>\<open>ncclSocketListen\<close> binds the socket: the
  operating system chooses the port, so the address bound and the connections that will
  arrive there come from the environment, one entry of \<open>binds\<close> per listening socket;
  with no entry left the call fails.
\<close>

definition ncclSocketGetAddr :: "ncclSocket \<Rightarrow> ncclSocketAddress" where
  "ncclSocketGetAddr sock = take sizeof_addr (addr sock @ replicate sizeof_addr 0)"

type_synonym binding = "ncclSocketAddress \<times> (64 word \<times> byte list) list"

definition ncclSocketListen ::
  "ncclSocket \<Rightarrow> binding list \<Rightarrow> ncclResult_t \<times> ncclSocket \<times> binding list" where
  "ncclSocketListen sock binds =
     (case binds of
        [] \<Rightarrow> (ncclSystemError, sock\<lparr>ops := Suc (ops sock)\<rparr>, [])
      | b # bs \<Rightarrow> (ncclSuccess,
                   sock\<lparr>addr := fst b, backlog := snd b, ops := Suc (ops sock)\<rparr>, bs))"

text \<open>
  Modelled from the spec: \<^verbatim>\<open>ncclCalloc(&ptr, n)\<close> for an array of \<open>n\<close> addresses, all
  bytes zero. A negative count is a size no allocator grants.
\<close>

definition ncclCalloc :: "int \<Rightarrow> ncclResult_t \<times> ncclSocketAddress list ptr" where
  "ncclCalloc n =
     (if n < 0 then (ncclSystemError, Null)
      else (ncclSuccess, Live (replicate (nat n) (replicate sizeof_addr 0))))"

text \<open>Writing \<^verbatim>\<open>tbl[i]\<close>; outside the array it is undefined.\<close>

definition table_set ::
  "ncclSocketAddress list ptr \<Rightarrow> int \<Rightarrow> ncclSocketAddress \<Rightarrow> ncclSocketAddress list option" where
  "table_set tbl i a =
     (case tbl of
        Live as \<Rightarrow> if 0 \<le> i \<and> i < int (length as) then Some (as[nat i := a]) else None
      | _ \<Rightarrow> None)"

text \<open>
  \<^verbatim>\<open>bootstrapAllGather(state, table, sizeof(union ncclSocketAddress))\<close>: the array of
  addresses is passed as bytes and read back as addresses.
\<close>

definition gather_table ::
  "bootstrapState \<Rightarrow> ncclSocketAddress list
     \<Rightarrow> (ncclSocketAddress list \<times> bootstrapState) outcome" where
  "gather_table state as =
     (case bootstrapAllGather state (concat as) (int sizeof_addr) of
        Undefined \<Rightarrow> Undefined
      | Returns r ds \<Rightarrow>
          Returns r (map (\<lambda>k. load (fst ds) (k * sizeof_addr) sizeof_addr) [0..<length as],
                     snd ds))"

text \<open>\<^verbatim>\<open>NCCLCHECK\<close>: leave with the result when it is not \<open>ncclSuccess\<close>.\<close>

definition NCCLCHECK :: "ncclResult_t \<Rightarrow> 'a \<Rightarrow> 'a outcome \<Rightarrow> 'a outcome" where
  "NCCLCHECK r left rest = (if r \<noteq> ncclSuccess then Returns r left else rest)"

text \<open>\<^verbatim>\<open>struct ncclBootstrapHandle\<close>.\<close>

record ncclBootstrapHandle =
  h_addr :: ncclSocketAddress
  h_magic :: "64 word"

text \<open>
  The second half of \<^verbatim>\<open>bootstrapInit\<close>, from \<^verbatim>\<open>// AllGather all listen handlers\<close> on:
  the two address tables. The result carries the state, the proxy socket once it is
  allocated, and the connections opened so far. \<open>proxyInit\<close> is what the external
  \<^verbatim>\<open>ncclProxyInit\<close> returns.
\<close>

definition init_tables ::
  "bootstrapState \<Rightarrow> ncclSocketAddress \<Rightarrow> binding list \<Rightarrow> ncclResult_t \<Rightarrow> ncclSocket list
     \<Rightarrow> (bootstrapState \<times> ncclSocket ptr \<times> ncclSocket list) outcome" where
  "init_tables state ifAddr binds proxyInit conns =
     (case ncclCalloc (st_nranks state) of (r1, tbl) \<Rightarrow>
      NCCLCHECK r1 (state\<lparr>peerCommAddresses := tbl\<rparr>, Null, conns)
       (case table_set tbl (st_rank state) (ncclSocketGetAddr (listenSock state)) of
          None \<Rightarrow> Undefined
        | Some as \<Rightarrow>
           (case gather_table (state\<lparr>peerCommAddresses := Live as\<rparr>) as of
              Undefined \<Rightarrow> Undefined
            | Returns r2 g \<Rightarrow>
               NCCLCHECK r2 ((snd g)\<lparr>peerCommAddresses := Live (fst g)\<rparr>, Null, conns)
                (case ncclCalloc (st_nranks state) of (r3, ptbl) \<Rightarrow>
                 NCCLCHECK r3 ((snd g)\<lparr>peerCommAddresses := Live (fst g),
                                        peerProxyAddresses := ptbl\<rparr>, Null, conns)
                  (case ncclSocketListen (ncclSocketInit ifAddr (st_magic state)) binds of
                     (r4, proxySocket, binds') \<Rightarrow>
                   NCCLCHECK r4 ((snd g)\<lparr>peerCommAddresses := Live (fst g),
                                          peerProxyAddresses := ptbl\<rparr>, Live proxySocket, conns)
                    (case table_set ptbl (st_rank state) (ncclSocketGetAddr proxySocket) of
                       None \<Rightarrow> Undefined
                     | Some ps \<Rightarrow>
                        (case gather_table ((snd g)\<lparr>peerCommAddresses := Live (fst g),
                                                     peerProxyAddresses := Live ps\<rparr>) ps of
                           Undefined \<Rightarrow> Undefined
                         | Returns r5 g' \<Rightarrow>
                            NCCLCHECK r5 ((snd g')\<lparr>peerProxyAddresses := Live (fst g')\<rparr>,
                                          Live proxySocket, conns)
                             (NCCLCHECK proxyInit
                                ((snd g')\<lparr>peerProxyAddresses := Live (fst g')\<rparr>,
                                 Live proxySocket, conns)
                                (Returns ncclSuccess
                                   ((snd g')\<lparr>peerProxyAddresses := Live (fst g')\<rparr>,
                                    Live proxySocket, conns))))))))))"

text \<open>
  \<^verbatim>\<open>bootstrapInit\<close>, for the rank and rank count of the communicator, its abort flag,
  the bootstrap interface address \<open>ifAddr\<close> (the static \<^verbatim>\<open>bootstrapNetIfAddr\<close>) and the
  environment of the three listening sockets. The \<^verbatim>\<open>nanosleep\<close> that staggers the ranks
  has no effect here. \<^verbatim>\<open>nextAddr\<close> is not initialised: it is the bytes received.
\<close>

definition bootstrapInit ::
  "ncclBootstrapHandle \<Rightarrow> int \<Rightarrow> int \<Rightarrow> 32 word \<Rightarrow> ncclSocketAddress \<Rightarrow> binding list
     \<Rightarrow> ncclResult_t \<Rightarrow> (bootstrapState \<times> ncclSocket ptr \<times> ncclSocket list) outcome" where
  "bootstrapInit handle rank nranks flag ifAddr binds proxyInit =
     (let state = \<lparr>listenSock = ncclSocketInit [] 0, ringRecvSocket = ncclSocketInit [] 0,
                    ringSendSocket = ncclSocketInit [] 0, peerCommAddresses = Null,
                    peerProxyAddresses = Null, unexpectedConnections = Linked [], cudaDev = 0,
                    st_rank = rank, st_nranks = nranks, st_magic = h_magic handle,
                    abortFlag = flag\<rparr>
      in case ncclSocketListen (ncclSocketInit ifAddr (h_magic handle)) binds of
        (r1, l, binds1) \<Rightarrow>
      NCCLCHECK r1 (state\<lparr>listenSock := l\<rparr>, Null, [])
       (case ncclSocketListen (ncclSocketInit ifAddr (h_magic handle)) binds1 of
          (r2, listenSockRoot, binds2) \<Rightarrow>
        NCCLCHECK r2 (state\<lparr>listenSock := l\<rparr>, Null, [])
         (let info = int_bytes (word_of_int rank) @ int_bytes (word_of_int nranks)
                       @ ncclSocketGetAddr listenSockRoot @ ncclSocketGetAddr l
          in case ncclSocketConnect (ncclSocketInit (h_addr handle) (h_magic handle)) of
            (r3, sock3) \<Rightarrow>
          NCCLCHECK r3 (state\<lparr>listenSock := l\<rparr>, Null, [sock3])
           (case bootstrapNetSend sock3 info (8 + 2 * int sizeof_addr) of (r4, sock4) \<Rightarrow>
            NCCLCHECK r4 (state\<lparr>listenSock := l\<rparr>, Null, [sock4])
             (case ncclSocketClose sock4 of (r5, sock5) \<Rightarrow>
              NCCLCHECK r5 (state\<lparr>listenSock := l\<rparr>, Null, [sock5])
               (case ncclSocketAccept (ncclSocketInit [] 0) listenSockRoot of
                  (r6, sock6, listenSockRoot') \<Rightarrow>
                NCCLCHECK r6 (state\<lparr>listenSock := l\<rparr>, Null, [sock5])
                 (case bootstrapNetRecv sock6 [] (int sizeof_addr) of (r7, nextAddr, sock7) \<Rightarrow>
                  NCCLCHECK r7 (state\<lparr>listenSock := l\<rparr>, Null, [sock5])
                   (NCCLCHECK (fst (ncclSocketClose sock7)) (state\<lparr>listenSock := l\<rparr>, Null, [sock5])
                    (NCCLCHECK (fst (ncclSocketClose listenSockRoot'))
                       (state\<lparr>listenSock := l\<rparr>, Null, [sock5])
                     (case ncclSocketConnect (ncclSocketInit nextAddr (h_magic handle)) of
                        (r10, rs) \<Rightarrow>
                      NCCLCHECK r10 (state\<lparr>listenSock := l, ringSendSocket := rs\<rparr>, Null, [sock5])
                       (case ncclSocketAccept (ncclSocketInit [] 0) l of (r11, rr, l') \<Rightarrow>
                        NCCLCHECK r11
                          (state\<lparr>listenSock := l', ringSendSocket := rs, ringRecvSocket := rr\<rparr>,
                           Null, [sock5])
                          (init_tables
                             (state\<lparr>listenSock := l', ringSendSocket := rs,
                                    ringRecvSocket := rr\<rparr>)
                             ifAddr binds2 proxyInit [sock5]))))))))))))"

subsection \<open>The root service\<close>

text \<open>
  \<^verbatim>\<open>struct extInfo\<close>: two \<^verbatim>\<open>int\<close>s and two addresses, received as bytes. The local
  \<^verbatim>\<open>info\<close> of \<^verbatim>\<open>bootstrapRoot\<close> is declared outside the loop and not initialised: it
  is modelled by the bytes of it written so far, and a field is read from it only once
  the whole struct has been written.
\<close>

definition sizeof_info :: nat where
  "sizeof_info = 8 + 2 * sizeof_addr"

definition info_rank :: "byte list \<Rightarrow> int" where
  "info_rank info = sint (bytes_int (load info 0 4))"

definition info_nranks :: "byte list \<Rightarrow> int" where
  "info_nranks info = sint (bytes_int (load info 4 4))"

definition info_extAddressListenRoot :: "byte list \<Rightarrow> ncclSocketAddress" where
  "info_extAddressListenRoot info = load info 8 sizeof_addr"

definition info_extAddressListen :: "byte list \<Rightarrow> ncclSocketAddress" where
  "info_extAddressListen info = load info (8 + sizeof_addr) sizeof_addr"

text \<open>
  How the service leaves: all addresses sent, a rank count that differs, a rank that has
  already checked in, or a call that failed. The two \<^verbatim>\<open>goto out\<close> after a warning leave
  \<^verbatim>\<open>res\<close> at \<open>ncclSuccess\<close>; the thread returns \<^verbatim>\<open>NULL\<close> in every case.
\<close>

datatype root_exit = RootDone | RootMismatch | RootDuplicate | RootError ncclResult_t

text \<open>
  The variables of the service that the loop carries: the listening socket, the count
  \<open>c\<close>, \<open>nranks\<close>, the two tables and \<open>info\<close>.
\<close>

type_synonym root_vars =
  "ncclSocket \<times> int \<times> int \<times> ncclSocketAddress list ptr \<times> ncclSocketAddress list ptr \<times> byte list"

text \<open>
  One iteration of the collect loop ends either at the \<^verbatim>\<open>while\<close> test, with the
  variables updated, or at \<^verbatim>\<open>out\<close>, with the tables as they are at that point.
\<close>

datatype collect_step_result =
  Continue root_vars
| Out root_exit ncclSocket "ncclSocketAddress list ptr" "ncclSocketAddress list ptr"

definition collect_step :: "root_vars \<Rightarrow> collect_step_result option" where
  "collect_step v =
     (case v of (lsock, c, nranks, rankAddresses, rankAddressesRoot, info) \<Rightarrow>
      case ncclSocketAccept (ncclSocketInit [] 0) lsock of (r1, sock1, l) \<Rightarrow>
        if r1 \<noteq> ncclSuccess then Some (Out (RootError r1) l rankAddresses rankAddressesRoot)
        else case bootstrapNetRecv sock1 info (int sizeof_info) of (r2, info', sock2) \<Rightarrow>
          if r2 \<noteq> ncclSuccess then Some (Out (RootError r2) l rankAddresses rankAddressesRoot)
          else if fst (ncclSocketClose sock2) \<noteq> ncclSuccess
          then Some (Out (RootError (fst (ncclSocketClose sock2))) l rankAddresses rankAddressesRoot)
          else if length info' < sizeof_info then None
          else
            let alloc = (if c = 0
                         then (info_nranks info', ncclCalloc (info_nranks info'),
                               ncclCalloc (info_nranks info'))
                         else (nranks, (ncclSuccess, rankAddresses),
                               (ncclSuccess, rankAddressesRoot)))
            in case alloc of (nranks', (ra, rankAddresses'), (rb, rankAddressesRoot')) \<Rightarrow>
              if ra \<noteq> ncclSuccess
              then Some (Out (RootError ra) l rankAddresses' rankAddressesRoot)
              else if rb \<noteq> ncclSuccess
              then Some (Out (RootError rb) l rankAddresses' rankAddressesRoot')
              else if nranks' \<noteq> info_nranks info'
              then Some (Out RootMismatch l rankAddresses' rankAddressesRoot')
              else case addr_at rankAddressesRoot' (info_rank info') of
                None \<Rightarrow> None
              | Some slot \<Rightarrow>
                  if slot \<noteq> replicate sizeof_addr 0
                  then Some (Out RootDuplicate l rankAddresses' rankAddressesRoot')
                  else case table_set rankAddressesRoot' (info_rank info')
                              (info_extAddressListenRoot info') of
                    None \<Rightarrow> None
                  | Some tr \<Rightarrow>
                     (case table_set rankAddresses' (info_rank info')
                             (info_extAddressListen info') of
                        None \<Rightarrow> None
                      | Some ta \<Rightarrow>
                          Some (Continue (l, c + 1, nranks', Live ta, Live tr, info'))))"

text \<open>
  The \<^verbatim>\<open>do \<dots> while (c < nranks)\<close> of the collect phase. \<open>None\<close> is undefined
  behaviour: a field of a partly written \<open>info\<close> is read, or a table is indexed with
  a rank outside it.
\<close>

function collect_loop :: "root_vars \<Rightarrow> collect_step_result option" where
  "collect_loop v =
     (case collect_step v of
        None \<Rightarrow> None
      | Some (Out e l ra rar) \<Rightarrow> Some (Out e l ra rar)
      | Some (Continue v') \<Rightarrow>
          if fst (snd v') < fst (snd (snd v')) then collect_loop v' else Some (Continue v'))"
  by pat_completeness auto
termination
proof (relation "measure (\<lambda>v. length (backlog (fst v)))", goal_cases)
  case 1
  show ?case by simp
next
  case (2 v x2 v')
  have acc: "length (backlog l') < length (backlog l)"
    if a: "ncclSocketAccept s l = (ncclSuccess, s', l')" for s l s' l'
  proof -
    obtain c cs where d: "dropWhile (\<lambda>c. fst c \<noteq> magic l) (backlog l) = c # cs"
      and l': "backlog l' = cs"
      using a by (auto simp: ncclSocketAccept_def split: if_splits list.splits)
    have "length (c # cs) \<le> length (backlog l)"
      using length_dropWhile_le [of "\<lambda>c. fst c \<noteq> magic l" "backlog l"] d by simp
    then show ?thesis using l' by simp
  qed
  obtain lsock c nranks ra rar info where v: "v = (lsock, c, nranks, ra, rar, info)"
    by (cases v) auto
  obtain r1 sock1 l where a: "ncclSocketAccept (ncclSocketInit [] 0) lsock = (r1, sock1, l)"
    by (cases "ncclSocketAccept (ncclSocketInit [] 0) lsock") auto
  from 2 have st: "collect_step v = Some (Continue v')" by simp
  then have "r1 = ncclSuccess \<and> fst v' = l"
    unfolding v collect_step_def
    by (auto simp: a Let_def split: if_splits prod.splits option.splits)
  with acc [of "ncclSocketInit [] 0" lsock sock1 l] a v
  show ?case by simp
qed

text \<open>
  The distribute phase, from a given \<open>r\<close>, with the connections opened so far. A call
  that fails leaves through \<^verbatim>\<open>out\<close> without closing the connection.
\<close>

function distribute_loop ::
  "ncclSocketAddress list ptr \<Rightarrow> ncclSocketAddress list ptr \<Rightarrow> int \<Rightarrow> 64 word \<Rightarrow> int
     \<Rightarrow> ncclSocket list \<Rightarrow> (root_exit \<times> ncclSocket list) option" where
  "distribute_loop rankAddresses rankAddressesRoot nranks mgc r conns =
     (if r < nranks then
        let next = (r + 1) smod nranks
        in case addr_at rankAddressesRoot r of
             None \<Rightarrow> None
           | Some dest \<Rightarrow>
              (case ncclSocketConnect (ncclSocketInit dest mgc) of (r1, sock1) \<Rightarrow>
                 if r1 \<noteq> ncclSuccess then Some (RootError r1, conns @ [sock1])
                 else case addr_at rankAddresses next of
                   None \<Rightarrow> None
                 | Some a \<Rightarrow>
                    (case bootstrapNetSend sock1 a (int sizeof_addr) of (r2, sock2) \<Rightarrow>
                       if r2 \<noteq> ncclSuccess then Some (RootError r2, conns @ [sock2])
                       else case ncclSocketClose sock2 of (r3, sock3) \<Rightarrow>
                         if r3 \<noteq> ncclSuccess then Some (RootError r3, conns @ [sock3])
                         else distribute_loop rankAddresses rankAddressesRoot nranks mgc
                                (r + 1) (conns @ [sock3])))
      else Some (RootDone, conns))"
  by pat_completeness auto
termination
  by (relation "measure (\<lambda>(ra, rar, nranks, mgc, r, conns). nat (nranks - r))") auto

text \<open>
  The service from the top of the collect loop with the variables \<open>v\<close>, up to the
  label \<^verbatim>\<open>out\<close>: how it left, the tables as they are when \<^verbatim>\<open>out\<close> is reached (they are
  released there), the connections of the distribute phase, and the listening socket
  after it has been closed.
\<close>

definition root_from ::
  "root_vars \<Rightarrow> 64 word
     \<Rightarrow> (root_exit \<times> ncclSocketAddress list ptr \<times> ncclSocketAddress list ptr
          \<times> ncclSocket list \<times> ncclSocket) option" where
  "root_from v mgc =
     (case collect_loop v of
        None \<Rightarrow> None
      | Some (Out e l ra rar) \<Rightarrow> Some (e, ra, rar, [], snd (ncclSocketClose l))
      | Some (Continue v') \<Rightarrow>
         (case v' of (l, c, nranks, ra, rar, info) \<Rightarrow>
            case distribute_loop ra rar nranks mgc 0 [] of
              None \<Rightarrow> None
            | Some (e, conns) \<Rightarrow> Some (e, ra, rar, conns, snd (ncclSocketClose l))))"

text \<open>
  \<^verbatim>\<open>bootstrapRoot\<close> for the listening socket and magic of its arguments.
  \<^verbatim>\<open>setFilesLimit\<close> changes a limit of the process and nothing here.
\<close>

definition bootstrapRoot ::
  "ncclSocket \<Rightarrow> 64 word
     \<Rightarrow> (root_exit \<times> ncclSocketAddress list ptr \<times> ncclSocketAddress list ptr
          \<times> ncclSocket list \<times> ncclSocket) option" where
  "bootstrapRoot lsock mgc =
     (case ncclCalloc 1 of (r0, zero) \<Rightarrow>
        if r0 \<noteq> ncclSuccess
        then Some (RootError r0, Null, Null, [], snd (ncclSocketClose lsock))
        else root_from (lsock, 0, 0, Null, Null, []) mgc)"

subsection \<open>Descriptions used by the properties\<close>

text \<open>An entry of the queue is the one a \<open>Recv(p, t)\<close> waits for.\<close>

definition unex_match :: "int \<Rightarrow> int \<Rightarrow> unexConn \<Rightarrow> bool" where
  "unex_match p t e \<longleftrightarrow> unex_peer e = p \<and> unex_tag e = t"

text \<open>
  What the accept loop does to the queue: it only appends, the appended entries do not
  have the peer and tag waited for, and they are, in order, the connections accepted
  from the listening socket, each with what is left of its stream.
\<close>

definition parked ::
  "int \<Rightarrow> int \<Rightarrow> ncclSocket \<Rightarrow> unexConn list \<Rightarrow> bool" where
  "parked p t l es \<longleftrightarrow>
     (\<forall>e\<in>set es. \<not> (unex_peer e = p \<and> unex_tag e = t)) \<and>
     list_all2 (\<lambda>e c. suffix (rx (unex_sock e)) (snd c)) es
       (take (length es) (filter (\<lambda>c. fst c = magic l) (backlog l)))"

text \<open>
  A connection as \<^verbatim>\<open>bootstrapSend\<close> makes it, seen from the listening socket it waits
  on: the magic presented, then the sender's rank and the tag, each in a frame of four
  bytes, then the rest of the stream (the frame of the data).
\<close>

definition p2p_conn :: "64 word \<Rightarrow> int32 \<times> int32 \<times> byte list \<Rightarrow> 64 word \<times> byte list" where
  "p2p_conn m msg =
     (case msg of (pw, tw, body) \<Rightarrow>
        (m, int_bytes 4 @ int_bytes pw @ int_bytes 4 @ int_bytes tw @ body))"

text \<open>
  The socket \<^verbatim>\<open>bootstrapRecv\<close> holds after it has accepted such a connection and read
  the rank and the tag from it, and the queue entry made of it.
\<close>

definition accepted_sock :: "byte list \<Rightarrow> ncclSocket" where
  "accepted_sock body =
     \<lparr>addr = [], magic = 0, rx = body, tx = [], backlog = [], closed = False, ops = 5\<rparr>"

definition parked_entry :: "int32 \<times> int32 \<times> byte list \<Rightarrow> unexConn" where
  "parked_entry msg =
     (case msg of (pw, tw, body) \<Rightarrow>
        \<lparr>unex_peer = sint pw, unex_tag = sint tw, unex_sock = accepted_sock body\<rparr>)"


text \<open>
  The barrier as the specification words it: a list of tagged transfers, run one after
  the other until one fails. A round with mask \<open>2 ^ k\<close> is a Send to
  \<open>ranks[(rank + mask) mod nranks]\<close> followed by a Recv from
  \<open>ranks[(rank - mask + nranks) mod nranks]\<close>, and there are \<open>\<lceil>log\<^sub>2 nranks\<rceil>\<close> rounds.
\<close>

datatype p2p_op = OpSend int int | OpRecv int int

fun run_rounds ::
  "p2p_op list \<Rightarrow> bootstrapState \<Rightarrow> byte list \<Rightarrow> ncclSocket list
     \<Rightarrow> (bootstrapState \<times> ncclSocket list) outcome" where
  "run_rounds [] st data conns = Returns ncclSuccess (st, conns)"
| "run_rounds (OpSend p t # rest) st data conns =
     (case bootstrapSend st p t data sizeof_int of
        Undefined \<Rightarrow> Undefined
      | Returns r c \<Rightarrow>
          if r \<noteq> ncclSuccess then Returns r (st, conns @ [c])
          else run_rounds rest st data (conns @ [c]))"
| "run_rounds (OpRecv p t # rest) st data conns =
     (case bootstrapRecv st p t data sizeof_int of
        Undefined \<Rightarrow> Undefined
      | Returns r ds \<Rightarrow>
          if r \<noteq> ncclSuccess then Returns r (snd ds, conns)
          else run_rounds rest (snd ds) (fst ds) conns)"

definition barrier_round :: "int list \<Rightarrow> int \<Rightarrow> int \<Rightarrow> int \<Rightarrow> nat \<Rightarrow> p2p_op list" where
  "barrier_round ranks rank nranks tag k =
     [OpSend (ranks ! nat ((rank + 2 ^ k) mod nranks)) tag,
      OpRecv (ranks ! nat ((rank - 2 ^ k + nranks) mod nranks)) tag]"

definition barrier_schedule :: "int list \<Rightarrow> int \<Rightarrow> int \<Rightarrow> int \<Rightarrow> p2p_op list" where
  "barrier_schedule ranks rank nranks tag =
     concat (map (barrier_round ranks rank nranks tag) [0..<ceillog2 (nat nranks)])"

text \<open>
  The connection the root leaves behind after it has connected to \<open>dest\<close>, sent the
  address \<open>a\<close> in a frame and closed.
\<close>

definition sent_conn :: "ncclSocketAddress \<Rightarrow> 64 word \<Rightarrow> ncclSocketAddress \<Rightarrow> ncclSocket" where
  "sent_conn dest mgc a =
     \<lparr>addr = dest, magic = mgc, rx = [],
      tx = int_bytes (word_of_int (int sizeof_addr)) @ take sizeof_addr a,
      backlog = [], closed = True, ops = 4\<rparr>"

subsection \<open>Example states\<close>

text \<open>
  Rank 2 of 4, with two connections waiting on its listening socket: one from peer 1
  with tag 9 carrying \<open>xx\<close>, then one from peer 0 with tag 7 carrying \<open>hi\<close>.
\<close>

definition example_sock :: ncclSocket where
  "example_sock = \<lparr>addr = [], magic = 7, rx = [], tx = [], backlog = [], closed = False, ops = 0\<rparr>"

definition recv_example :: bootstrapState where
  "recv_example =
     \<lparr>listenSock = example_sock\<lparr>addr := [2], backlog :=
        [(7, int_bytes 4 @ int_bytes 1 @ int_bytes 4 @ int_bytes 9 @ int_bytes 2 @ [120, 120]),
         (7, int_bytes 4 @ int_bytes 0 @ int_bytes 4 @ int_bytes 7 @ int_bytes 2 @ [104, 105])]\<rparr>,
      ringRecvSocket = example_sock, ringSendSocket = example_sock,
      peerCommAddresses = Live [[0], [1], [2], [3]],
      peerProxyAddresses = Live [[10], [11], [12], [13]],
      unexpectedConnections = Linked [],
      cudaDev = 0, st_rank = 2, st_nranks = 4, st_magic = 7, abortFlag = 0\<rparr>"


text \<open>The same rank with one parked connection from peer 1, tag 9.\<close>

definition parked_example :: bootstrapState where
  "parked_example = recv_example\<lparr>unexpectedConnections :=
     Linked [\<lparr>unex_peer = 1, unex_tag = 9, unex_sock = example_sock\<rparr>]\<rparr>"

text \<open>
  Rank 2 of 4 with a connection from peer 3, tag 4, carrying \<open>zz\<close> in its queue, and
  three connections waiting: from peer 1 with tag 9 carrying \<open>xx\<close>, from peer 3 with
  tag 4 carrying \<open>yy\<close>, and from peer 0 with tag 7 carrying \<open>hi\<close>.
\<close>

definition fifo_example :: bootstrapState where
  "fifo_example = recv_example\<lparr>
     listenSock := (listenSock recv_example)\<lparr>backlog :=
       [p2p_conn 7 (1, 9, int_bytes 2 @ [120, 120]),
        p2p_conn 7 (3, 4, int_bytes 2 @ [121, 121]),
        p2p_conn 7 (0, 7, int_bytes 2 @ [104, 105])]\<rparr>,
     unexpectedConnections := Linked [parked_entry (3, 4, int_bytes 2 @ [122, 122])]\<rparr>"

text \<open>The same rank after \<open>Recv(0, 7)\<close>, and then after \<open>Recv(3, 4)\<close>.\<close>

definition fifo_example_received :: bootstrapState where
  "fifo_example_received = recv_example\<lparr>
     listenSock := (listenSock recv_example)\<lparr>backlog := [], ops := 3\<rparr>,
     unexpectedConnections := Linked
       [parked_entry (3, 4, int_bytes 2 @ [122, 122]),
        parked_entry (1, 9, int_bytes 2 @ [120, 120]),
        parked_entry (3, 4, int_bytes 2 @ [121, 121])]\<rparr>"

definition fifo_example_dequeued :: bootstrapState where
  "fifo_example_dequeued = recv_example\<lparr>
     listenSock := (listenSock recv_example)\<lparr>backlog := [], ops := 3\<rparr>,
     unexpectedConnections := Linked
       [parked_entry (1, 9, int_bytes 2 @ [120, 120]),
        parked_entry (3, 4, int_bytes 2 @ [121, 121])]\<rparr>"

text \<open>What a failing \<open>bootstrapClose\<close> leaves of \<open>parked_example\<close>.\<close>

definition released_example :: bootstrapState where
  "released_example = recv_example\<lparr>unexpectedConnections :=
     Released [\<lparr>unex_peer = 1, unex_tag = 9, unex_sock = example_sock\<rparr>]\<rparr>"

text \<open>What \<open>bootstrapClose\<close> leaves of \<open>recv_example\<close>.\<close>

definition closed_example :: bootstrapState where
  "closed_example = recv_example\<lparr>
     listenSock := (listenSock recv_example)\<lparr>closed := True, ops := 1\<rparr>,
     ringSendSocket := example_sock\<lparr>closed := True, ops := 1\<rparr>,
     ringRecvSocket := example_sock\<lparr>closed := True, ops := 1\<rparr>,
     peerCommAddresses := Freed [[0], [1], [2], [3]]\<rparr>"

text \<open>
  Rank 2 of 4 entering a barrier with tag 5: the tokens of its two rounds, from peer 1
  and from peer 0, are waiting on the listening socket.
\<close>

definition barrier_example :: bootstrapState where
  "barrier_example =
     recv_example\<lparr>listenSock := (listenSock recv_example)\<lparr>backlog :=
        [(7, int_bytes 4 @ int_bytes 1 @ int_bytes 4 @ int_bytes 5 @ int_bytes 4 @ [0, 0, 0, 0]),
         (7, int_bytes 4 @ int_bytes 0 @ int_bytes 4 @ int_bytes 5 @ int_bytes 4 @ [0, 0, 0, 0])]\<rparr>\<rparr>"

text \<open>
  A barrier over more than \<open>2 ^ 30\<close> ranks: rank 0 of \<open>2 ^ 30 + 1\<close>, the group
  being all the ranks in their order, every rank with the address \<open>[0]\<close>. The tokens
  of the rounds with the masks \<open>1, 2, \<dots>, 2 ^ 30\<close> wait on the listening socket, the
  one of the round with the mask \<open>2 ^ k\<close> from the rank \<open>2 ^ 30 + 1 - 2 ^ k\<close>.
  \<open>wide_example_after j\<close> is the rank once it has received the first \<open>j\<close> of them.
\<close>

definition wide_n :: int where
  "wide_n = 2 ^ 30 + 1"

definition wide_ranks :: "int list" where
  "wide_ranks = map int [0..<nat wide_n]"

definition wide_token :: "nat \<Rightarrow> 64 word \<times> byte list" where
  "wide_token k = p2p_conn 7 (word_of_int (wide_n - 2 ^ k), 5, int_bytes 4 @ int_bytes 0)"

definition wide_example_after :: "nat \<Rightarrow> bootstrapState" where
  "wide_example_after j =
     \<lparr>listenSock = example_sock\<lparr>addr := [0], backlog := map wide_token [j..<31], ops := j\<rparr>,
      ringRecvSocket = example_sock, ringSendSocket = example_sock,
      peerCommAddresses = Live (replicate (nat wide_n) [0]),
      peerProxyAddresses = Live (replicate (nat wide_n) [0]),
      unexpectedConnections = Linked [],
      cudaDev = 0, st_rank = 0, st_nranks = wide_n, st_magic = 7, abortFlag = 0\<rparr>"

definition wide_example :: bootstrapState where
  "wide_example = wide_example_after 0"

text \<open>
  The connection each round of that barrier leaves behind: opened to the address
  \<open>[0]\<close>, the rank 0, the tag 5 and the four bytes of the token written to it, closed.
\<close>

definition wide_conn :: ncclSocket where
  "wide_conn =
     \<lparr>addr = [0], magic = 7, rx = [],
      tx = int_bytes 4 @ int_bytes 0 @ int_bytes 4 @ int_bytes 5 @ int_bytes 4 @ int_bytes 0,
      backlog = [], closed = True, ops = 8\<rparr>"

text \<open>
  A ring of four ranks with one-byte contributions \<open>0x10, 0x20, 0x30, 0x40\<close>. Rank
  \<open>r\<close> sends its own slice, then the slices of the two ranks before it; its receive
  socket delivers what its predecessor sends.
\<close>

definition ring_contrib :: "byte list" where
  "ring_contrib = [16, 32, 48, 64]"

definition ring_sent :: "nat \<Rightarrow> byte list" where
  "ring_sent r = concat (map (\<lambda>k. int_bytes 1 @ [ring_contrib ! ((r + 4 - k) mod 4)]) [0, 1, 2])"

definition ring_state :: "nat \<Rightarrow> bootstrapState" where
  "ring_state r = recv_example\<lparr>st_rank := int r,
     ringRecvSocket := example_sock\<lparr>rx := ring_sent ((r + 3) mod 4)\<rparr>\<rparr>"

definition ring_data :: "nat \<Rightarrow> byte list" where
  "ring_data r = (replicate 4 0)[r := ring_contrib ! r]"

definition ring_final :: "nat \<Rightarrow> bootstrapState" where
  "ring_final r = (ring_state r)\<lparr>
     ringSendSocket := example_sock\<lparr>tx := ring_sent r, ops := 6\<rparr>,
     ringRecvSocket := example_sock\<lparr>rx := [], ops := 6\<rparr>\<rparr>"

text \<open>
  Rank 1 of 2 running Init. Addresses are a distinguishing byte padded to the size of an
  address. The listening socket is bound to address 11 and will be connected by rank 0,
  whose ring traffic carries the comm address 10 and the proxy address 20; the socket for
  the root is bound to address 31 and receives the successor's address 10; the proxy
  socket is bound to address 21.
\<close>

definition pad_addr :: "byte \<Rightarrow> ncclSocketAddress" where
  "pad_addr b = b # replicate 27 0"

definition init_binds :: "binding list" where
  "init_binds =
     [(pad_addr 11, [(7, int_bytes 28 @ pad_addr 10 @ int_bytes 28 @ pad_addr 20)]),
      (pad_addr 31, [(7, int_bytes 28 @ pad_addr 10)]),
      (pad_addr 21, [])]"

definition init_example_state :: bootstrapState where
  "init_example_state =
     \<lparr>listenSock = \<lparr>addr = pad_addr 11, magic = 7, rx = [], tx = [], backlog = [],
                     closed = False, ops = 2\<rparr>,
      ringRecvSocket = \<lparr>addr = [], magic = 0, rx = [], tx = [], backlog = [],
                         closed = False, ops = 5\<rparr>,
      ringSendSocket = \<lparr>addr = pad_addr 10, magic = 7, rx = [],
                         tx = int_bytes 28 @ pad_addr 11 @ int_bytes 28 @ pad_addr 21,
                         backlog = [], closed = False, ops = 5\<rparr>,
      peerCommAddresses = Live [pad_addr 10, pad_addr 11],
      peerProxyAddresses = Live [pad_addr 20, pad_addr 21],
      unexpectedConnections = Linked [], cudaDev = 0, st_rank = 1, st_nranks = 2, st_magic = 7,
      abortFlag = 0\<rparr>"

definition init_example_proxy :: ncclSocket where
  "init_example_proxy = \<lparr>addr = pad_addr 21, magic = 7, rx = [], tx = [], backlog = [],
                          closed = False, ops = 1\<rparr>"

definition init_example_conn :: ncclSocket where
  "init_example_conn =
     \<lparr>addr = pad_addr 1, magic = 7, rx = [],
      tx = int_bytes 64 @ int_bytes 1 @ int_bytes 2 @ pad_addr 31 @ pad_addr 11,
      backlog = [], closed = True, ops = 4\<rparr>"

text \<open>
  The same rank about to gather one-byte slices: it holds \<open>0x20\<close> in its own slice and
  will receive \<open>0x10\<close> from rank 0.
\<close>

definition gather_example :: bootstrapState where
  "gather_example = init_example_state\<lparr>ringRecvSocket := example_sock\<lparr>rx := int_bytes 1 @ [16]\<rparr>\<rparr>"

definition gather_example_final :: bootstrapState where
  "gather_example_final = init_example_state\<lparr>
     ringSendSocket := (ringSendSocket init_example_state)\<lparr>
        tx := tx (ringSendSocket init_example_state) @ int_bytes 1 @ [32], ops := 7\<rparr>,
     ringRecvSocket := example_sock\<lparr>rx := [], ops := 2\<rparr>\<rparr>"

text \<open>
  Check-ins as \<open>bootstrapInit\<close> frames them, and a root whose listening socket will be
  reached by rank 1 and then by rank 0 of two ranks.
\<close>

definition checkin_info :: "int \<Rightarrow> int \<Rightarrow> byte \<Rightarrow> byte \<Rightarrow> byte list" where
  "checkin_info rank nranks rootb commb =
     int_bytes (word_of_int rank) @ int_bytes (word_of_int nranks)
       @ pad_addr rootb @ pad_addr commb"

definition checkin :: "int \<Rightarrow> int \<Rightarrow> byte \<Rightarrow> byte \<Rightarrow> byte list" where
  "checkin rank nranks rootb commb =
     int_bytes (word_of_int (int sizeof_info)) @ checkin_info rank nranks rootb commb"

definition root_example_sock :: ncclSocket where
  "root_example_sock = example_sock\<lparr>backlog := [(7, checkin 1 2 31 11), (7, checkin 0 2 30 10)]\<rparr>"

text \<open>
  The variables of the root after rank 1 of two ranks has checked in, with the next
  check-in waiting: one that reports three ranks, and one from rank 1 again.
\<close>

definition root_after_first :: "byte list \<Rightarrow> root_vars" where
  "root_after_first next_checkin =
     (example_sock\<lparr>backlog := [(7, next_checkin)]\<rparr>, 1, 2,
      Live [replicate sizeof_addr 0, pad_addr 11], Live [replicate sizeof_addr 0, pad_addr 31],
      checkin_info 1 2 31 11)"

section \<open>Properties\<close>

lemma bytes_int_int_bytes: "bytes_int (int_bytes w) = w"
proof (rule bit_word_eqI)
  fix n assume "n < LENGTH(32)"
  then have n: "n < 32" by simp
  consider "n < 8" | "8 \<le> n" "n < 16" | "16 \<le> n" "n < 24" | "24 \<le> n" "n < 32"
    using n by linarith
  then show "bit (bytes_int (int_bytes w)) n = bit w n"
    by cases (auto simp: int_bytes_def bit_simps)
qed

lemma length_int_bytes: "length (int_bytes w) = 4"
  by (simp add: int_bytes_def)

lemma recv_prefix:
  "\<not> closed sock \<Longrightarrow> rx sock = int_bytes w @ payload \<Longrightarrow>
   ncclSocketRecv sock sizeof_int =
     (ncclSuccess, int_bytes w, sock\<lparr>rx := payload, ops := Suc (ops sock)\<rparr>)"
  by (simp add: ncclSocketRecv_def sizeof_int_def length_int_bytes)

lemma netrecv_frame:
  assumes "\<not> closed sock" and "rx sock = int_bytes w @ payload"
  shows "bootstrapNetRecv sock data sz =
    (if sint w > sz
     then (ncclInternalError, data, sock\<lparr>rx := payload, ops := Suc (ops sock)\<rparr>)
     else if nat (min (sint w) sz) \<le> length payload
     then (ncclSuccess, store data 0 (take (nat (min (sint w) sz)) payload),
           sock\<lparr>rx := drop (nat (min (sint w) sz)) payload, ops := Suc (Suc (ops sock))\<rparr>)
     else (ncclSystemError, store data 0 payload, sock\<lparr>rx := [], ops := Suc (Suc (ops sock))\<rparr>))"
proof -
  let ?s1 = "sock\<lparr>rx := payload, ops := Suc (ops sock)\<rparr>"
  have p: "ncclSocketRecv sock sizeof_int = (ncclSuccess, int_bytes w, ?s1)"
    using assms by (rule recv_prefix)
  have c1: "\<not> closed ?s1" using assms(1) by simp
  show ?thesis
  proof (cases "sint w > sz")
    case True
    then show ?thesis
      unfolding bootstrapNetRecv_def p by (simp add: bytes_int_int_bytes)
  next
    case False
    define m where "m = min (sint w) sz"
    have r2: "ncclSocketRecv ?s1 m =
       (if nat m \<le> length payload
        then (ncclSuccess, take (nat m) payload,
              sock\<lparr>rx := drop (nat m) payload, ops := Suc (Suc (ops sock))\<rparr>)
        else (ncclSystemError, payload, sock\<lparr>rx := [], ops := Suc (Suc (ops sock))\<rparr>))"
      using c1 unfolding ncclSocketRecv_def by simp
    have "bootstrapNetRecv sock data sz =
       (case ncclSocketRecv ?s1 m of
          (r2, bs, sock2) \<Rightarrow>
            if r2 \<noteq> ncclSuccess then (r2, store data 0 bs, sock2)
            else (ncclSuccess, store data 0 bs, sock2))"
      unfolding bootstrapNetRecv_def p m_def using False
      by (simp add: bytes_int_int_bytes)
    also have "\<dots> =
       (if nat m \<le> length payload
        then (ncclSuccess, store data 0 (take (nat m) payload),
              sock\<lparr>rx := drop (nat m) payload, ops := Suc (Suc (ops sock))\<rparr>)
        else (ncclSystemError, store data 0 payload,
              sock\<lparr>rx := [], ops := Suc (Suc (ops sock))\<rparr>))"
      unfolding r2 by simp
    finally show ?thesis using False unfolding m_def by simp
  qed
qed

text \<open>
  C5. With a length prefix \<open>w\<close> on the socket, \<open>bootstrapNetRecv\<close> returns
  \<open>ncclInternalError\<close> when the prefix exceeds the expected size, having consumed the
  prefix only and left the destination as it was; otherwise it takes
  \<open>min recvSize size\<close> bytes of payload into the destination and returns
  \<open>ncclSuccess\<close>, unless the stream ends early, which is the socket's error.
\<close>

theorem bootstrapNetRecv_truncation:
  assumes "\<not> closed sock" and "rx sock = int_bytes w @ payload"
  shows "bootstrapNetRecv sock data sz =
    (if sint w > sz
     then (ncclInternalError, data, sock\<lparr>rx := payload, ops := Suc (ops sock)\<rparr>)
     else if nat (min (sint w) sz) \<le> length payload
     then (ncclSuccess, store data 0 (take (nat (min (sint w) sz)) payload),
           sock\<lparr>rx := drop (nat (min (sint w) sz)) payload, ops := Suc (Suc (ops sock))\<rparr>)
     else (ncclSystemError, store data 0 payload, sock\<lparr>rx := [], ops := Suc (Suc (ops sock))\<rparr>))"
  using assms by (rule netrecv_frame)

theorem bootstrapNetRecv_truncation_witness:
  "bootstrapNetRecv \<lparr>addr = [], magic = 0, rx = int_bytes 2 @ [1, 2, 3], tx = [], backlog = [],
       closed = False, ops = 0\<rparr> [9, 9, 9, 9] 4 =
     (ncclSuccess, [1, 2, 9, 9],
      \<lparr>addr = [], magic = 0, rx = [3], tx = [], backlog = [], closed = False, ops = 2\<rparr>)
   \<and> bootstrapNetRecv \<lparr>addr = [], magic = 0, rx = int_bytes 5 @ [1, 2, 3, 4, 5], tx = [],
       backlog = [], closed = False, ops = 0\<rparr> [9, 9, 9, 9] 4 =
     (ncclInternalError, [9, 9, 9, 9],
      \<lparr>addr = [], magic = 0, rx = [1, 2, 3, 4, 5], tx = [], backlog = [], closed = False, ops = 1\<rparr>)"
  using bootstrapNetRecv_truncation [of "\<lparr>addr = [], magic = 0, rx = int_bytes 2 @ [1, 2, 3],
       tx = [], backlog = [], closed = False, ops = 0\<rparr>" 2 "[1, 2, 3]" "[9, 9, 9, 9]" 4]
    bootstrapNetRecv_truncation [of "\<lparr>addr = [], magic = 0, rx = int_bytes 5 @ [1, 2, 3, 4, 5],
       tx = [], backlog = [], closed = False, ops = 0\<rparr>" 5 "[1, 2, 3, 4, 5]" "[9, 9, 9, 9]" 4]
  by (simp add: store_def)

lemma enqueue_walk_append: "enqueue_walk q u = q @ [u]"
  by (induction q) simp_all

lemma dequeue_scan_eq:
  "dequeue_scan q p t =
     (takeWhile (\<lambda>e. \<not> (unex_peer e = p \<and> unex_tag e = t)) q
        @ tl (dropWhile (\<lambda>e. \<not> (unex_peer e = p \<and> unex_tag e = t)) q),
      map_option unex_sock (find (\<lambda>e. unex_peer e = p \<and> unex_tag e = t) q))"
  by (induction q) simp_all

lemma close_sockets_eq:
  "close_sockets st =
     (ncclSuccess,
      st\<lparr>listenSock := (listenSock st)\<lparr>closed := True, ops := Suc (ops (listenSock st))\<rparr>,
         ringSendSocket := (ringSendSocket st)\<lparr>closed := True, ops := Suc (ops (ringSendSocket st))\<rparr>,
         ringRecvSocket := (ringRecvSocket st)\<lparr>closed := True, ops := Suc (ops (ringRecvSocket st))\<rparr>\<rparr>)"
  by (simp add: close_sockets_def ncclSocketClose_def Let_def)

text \<open>
  C10. \<open>bootstrapAbort\<close> on a null state pointer returns \<open>ncclSuccess\<close> and leaves
  the pointer null: there is no state it could have read, no socket it could have closed
  and nothing it could have released.
\<close>

theorem bootstrapAbort_null: "bootstrapAbort Null = Returns ncclSuccess Null"
  by simp

lemma unexpectedEnqueue_eq:
  "unexpectedConnections st = Linked q \<Longrightarrow>
   unexpectedEnqueue st p t s =
     Returns ncclSuccess (st\<lparr>unexpectedConnections :=
        Linked (q @ [\<lparr>unex_peer = p, unex_tag = t, unex_sock = s\<rparr>])\<rparr>)"
  by (simp add: unexpectedEnqueue_def enqueue_walk_append)

lemma unexpectedDequeue_eq:
  "unexpectedConnections st = Linked q \<Longrightarrow>
   unexpectedDequeue st p t =
     Returns ncclSuccess
       (st\<lparr>unexpectedConnections := Linked
          (takeWhile (\<lambda>e. \<not> unex_match p t e) q @ tl (dropWhile (\<lambda>e. \<not> unex_match p t e) q))\<rparr>,
        map_option unex_sock (find (unex_match p t) q))"
  by (simp add: unexpectedDequeue_def dequeue_scan_eq unex_match_def [abs_def])

lemma released_undefined:
  "unexpectedConnections st = Released q \<Longrightarrow> bootstrapClose (Live st) = Undefined"
  "unexpectedConnections st = Released q \<Longrightarrow> bootstrapRecv st p t data sz = Undefined"
  by (simp_all add: unexpectedFree_def bootstrapRecv_def unexpectedDequeue_def)

text \<open>
  C8, as the code has it. On a live state whose comm-address table has not been released
  before and whose queue of unexpected connections is the chain \<open>q\<close>,
  \<open>bootstrapClose\<close> returns \<open>ncclInternalError\<close> exactly when the queue is nonempty
  while the abort flag is zero. It has then released the nodes of the queue and nothing
  else: the state is still live, its sockets are open, and its head pointer is left
  pointing to the released nodes, so that a second \<open>bootstrapClose\<close> and any
  \<open>bootstrapRecv\<close> on that state are undefined. Otherwise it returns \<open>ncclSuccess\<close>,
  having released the nodes of the queue if there were any, closed \<open>listenSock\<close>,
  \<open>ringSendSocket\<close> and \<open>ringRecvSocket\<close>, and released \<open>peerCommAddresses\<close> and
  the state; \<open>peerProxyAddresses\<close> is left as it was.
\<close>

theorem bootstrapClose_spec:
  assumes "free (peerCommAddresses st) = Some pc"
    and "unexpectedConnections st = Linked q"
  shows "bootstrapClose (Live st) =
    (if q \<noteq> [] \<and> abortFlag st = 0
     then Returns ncclInternalError (Live (st\<lparr>unexpectedConnections := Released q\<rparr>))
     else Returns ncclSuccess (Freed (st\<lparr>
       listenSock := (listenSock st)\<lparr>closed := True, ops := Suc (ops (listenSock st))\<rparr>,
       ringSendSocket := (ringSendSocket st)\<lparr>closed := True, ops := Suc (ops (ringSendSocket st))\<rparr>,
       ringRecvSocket := (ringRecvSocket st)\<lparr>closed := True, ops := Suc (ops (ringRecvSocket st))\<rparr>,
       peerCommAddresses := pc,
       unexpectedConnections := (if q = [] then Linked [] else Released q)\<rparr>)))
    \<and> (q \<noteq> [] \<and> abortFlag st = 0 \<longrightarrow>
         bootstrapClose (Live (st\<lparr>unexpectedConnections := Released q\<rparr>)) = Undefined
         \<and> bootstrapRecv (st\<lparr>unexpectedConnections := Released q\<rparr>) p t data sz = Undefined)"
proof -
  have "bootstrapClose (Live (st\<lparr>unexpectedConnections := Released q\<rparr>)) = Undefined"
    by (rule released_undefined) simp
  moreover have "bootstrapRecv (st\<lparr>unexpectedConnections := Released q\<rparr>) p t data sz = Undefined"
    by (rule released_undefined) simp
  moreover have "bootstrapClose (Live st) =
    (if q \<noteq> [] \<and> abortFlag st = 0
     then Returns ncclInternalError (Live (st\<lparr>unexpectedConnections := Released q\<rparr>))
     else Returns ncclSuccess (Freed (st\<lparr>
       listenSock := (listenSock st)\<lparr>closed := True, ops := Suc (ops (listenSock st))\<rparr>,
       ringSendSocket := (ringSendSocket st)\<lparr>closed := True, ops := Suc (ops (ringSendSocket st))\<rparr>,
       ringRecvSocket := (ringRecvSocket st)\<lparr>closed := True, ops := Suc (ops (ringRecvSocket st))\<rparr>,
       peerCommAddresses := pc,
       unexpectedConnections := (if q = [] then Linked [] else Released q)\<rparr>)))"
    using assms by (simp add: close_and_free_def close_sockets_eq unexpectedFree_def)
  ultimately show ?thesis by simp
qed

theorem bootstrapClose_spec_witness:
  "free (peerCommAddresses recv_example) = Some (Freed [[0], [1], [2], [3]])
   \<and> unexpectedConnections recv_example = Linked []
   \<and> unexpectedConnections parked_example
       = Linked [\<lparr>unex_peer = 1, unex_tag = 9, unex_sock = example_sock\<rparr>]
   \<and> abortFlag parked_example = 0
   \<and> bootstrapClose (Live recv_example) = Returns ncclSuccess (Freed closed_example)
   \<and> bootstrapClose (Live parked_example) = Returns ncclInternalError (Live released_example)
   \<and> bootstrapClose (Live released_example) = Undefined
   \<and> bootstrapRecv released_example 1 9 [0, 0] 2 = Undefined"
  using bootstrapClose_spec [of recv_example "Freed [[0], [1], [2], [3]]" "[]" 1 9 "[0, 0]" 2]
    bootstrapClose_spec [of parked_example "Freed [[0], [1], [2], [3]]"
      "[\<lparr>unex_peer = 1, unex_tag = 9, unex_sock = example_sock\<rparr>]" 1 9 "[0, 0]" 2]
  by (simp add: recv_example_def parked_example_def closed_example_def released_example_def
        example_sock_def)

text \<open>
  C8 as stated fails on the proxy-address table: Close succeeds on \<open>recv_example\<close> and
  the state it releases still holds a live \<open>peerProxyAddresses\<close>.
\<close>

theorem bootstrapClose_proxy_table_counterexample:
  "bootstrapClose (Live recv_example) = Returns ncclSuccess (Freed closed_example)
   \<and> peerProxyAddresses closed_example = Live [[10], [11], [12], [13]]"
  by (simp add: recv_example_def closed_example_def example_sock_def close_sockets_eq
        close_and_free_def)

declare accept_loop.simps [simp del]

lemma recv_exit_eq: "recv_exit r s d st = Returns r (d, st)"
  by (simp add: recv_exit_def p2p_exit_def ncclSocketClose_def)

lemma recv_suffix: "ncclSocketRecv s n = (r, bs, s') \<Longrightarrow> suffix (rx s') (rx s)"
  by (auto simp: ncclSocketRecv_def suffix_drop split: if_splits)

lemma netrecv_suffix:
  assumes "bootstrapNetRecv s d z = (r, d', s')"
  shows "suffix (rx s') (rx s)"
proof -
  obtain r1 lenb s1 where a: "ncclSocketRecv s sizeof_int = (r1, lenb, s1)"
    by (cases "ncclSocketRecv s sizeof_int") auto
  have "s' = s1 \<or> (\<exists>n r2 bs. ncclSocketRecv s1 n = (r2, bs, s'))"
    using assms
    by (auto simp: bootstrapNetRecv_def a Let_def split: if_splits prod.splits)
  moreover have "suffix (rx s1) (rx s)" using a by (rule recv_suffix)
  ultimately show ?thesis by (auto dest: recv_suffix intro: suffix_order.trans)
qed

lemma dropWhile_filter:
  "dropWhile (\<lambda>c. \<not> P c) xs = c # cs \<Longrightarrow> filter P xs = c # filter P cs"
  by (induction xs) (auto split: if_splits)

lemma accept_facts:
  assumes "ncclSocketAccept s l = (ncclSuccess, s', l')"
  shows "\<exists>c. filter (\<lambda>c. fst c = magic l) (backlog l)
               = c # filter (\<lambda>c. fst c = magic l) (backlog l')
           \<and> rx s' = snd c \<and> magic l' = magic l"
proof -
  obtain c cs where d: "dropWhile (\<lambda>c. \<not> fst c = magic l) (backlog l) = c # cs"
    and l': "backlog l' = cs" "rx s' = snd c" "magic l' = magic l"
    using assms by (auto simp: ncclSocketAccept_def split: if_splits list.splits)
  from dropWhile_filter [OF d] l' show ?thesis by auto
qed

lemma accept_ops:
  "ncclSocketAccept s l = (r, s', l') \<Longrightarrow> ops l' = Suc (ops l)"
  by (auto simp: ncclSocketAccept_def split: if_splits list.splits)

text \<open>
  What an accept loop that returns has done, whatever the waiting connections carry: it
  has accepted one connection bs than it has appended to the queue.
\<close>

lemma accept_loop_effect:
  "accept_loop st p t data sz np nt = Returns r (d, st') \<Longrightarrow>
   unexpectedConnections st = Linked q \<Longrightarrow>
   \<exists>l es. st' = st\<lparr>listenSock := l, unexpectedConnections := Linked (q @ es)\<rparr>
        \<and> ops l = Suc (ops (listenSock st) + length es) \<and> parked p t (listenSock st) es"
proof (induction st p t data sz np nt arbitrary: q rule: accept_loop.induct)
  case (1 state peer tag data sz newPeer newTag)
  obtain r1 sock1 l where acc: "ncclSocketAccept (ncclSocketInit [] 0) (listenSock state) = (r1, sock1, l)"
    by (cases "ncclSocketAccept (ncclSocketInit [] 0) (listenSock state)") auto
  obtain r2 newPeer' sock2 where n1: "bootstrapNetRecv sock1 newPeer sizeof_int = (r2, newPeer', sock2)"
    by (cases "bootstrapNetRecv sock1 newPeer sizeof_int") auto
  obtain r3 newTag' sock3 where n2: "bootstrapNetRecv sock2 newTag sizeof_int = (r3, newTag', sock3)"
    by (cases "bootstrapNetRecv sock2 newTag sizeof_int") auto
  obtain r4 data' sock4 where n3: "bootstrapNetRecv sock3 data sz = (r4, data', sock4)"
    by (cases "bootstrapNetRecv sock3 data sz") auto
  let ?st1 = "state\<lparr>listenSock := l\<rparr>"
  let ?np = "sint (bytes_int newPeer')" and ?nt = "sint (bytes_int newTag')"
  let ?u = "\<lparr>unex_peer = ?np, unex_tag = ?nt, unex_sock = sock3\<rparr>"
  let ?st2 = "?st1\<lparr>unexpectedConnections := Linked (q @ [?u])\<rparr>"
  let ?P = "\<lambda>c. fst c = magic (listenSock state)"
  have q1: "unexpectedConnections ?st1 = Linked q"
    using "1.prems"(2) by simp
  have enq: "unexpectedEnqueue ?st1 ?np ?nt sock3 = Returns ncclSuccess ?st2"
    using unexpectedEnqueue_eq [OF q1] by simp
  have opsl: "ops l = Suc (ops (listenSock state))"
    using acc by (rule accept_ops)
  show ?case
  proof (cases "r1 = ncclSuccess \<and> r2 = ncclSuccess \<and> r3 = ncclSuccess
                \<and> \<not> (length newPeer' < 4 \<or> length newTag' < 4) \<and> \<not> (?np = peer \<and> ?nt = tag)")
    case True
    then have rec: "accept_loop state peer tag data sz newPeer newTag
                  = accept_loop ?st2 peer tag data sz newPeer' newTag'"
      by (subst accept_loop.simps) (auto simp: acc n1 n2 enq)
    have "\<exists>l' es. st' = ?st2\<lparr>listenSock := l',
                      unexpectedConnections := Linked ((q @ [?u]) @ es)\<rparr>
        \<and> ops l' = Suc (ops (listenSock ?st2) + length es) \<and> parked peer tag (listenSock ?st2) es"
    proof (rule "1.IH" [OF acc [symmetric] refl _ n1 [symmetric] refl _ n2 [symmetric] refl _ _ _ enq])
      show "\<not> r1 \<noteq> ncclSuccess" "\<not> r2 \<noteq> ncclSuccess" "\<not> r3 \<noteq> ncclSuccess"
        using True by simp_all
      show "\<not> (length newPeer' < 4 \<or> length newTag' < 4)" using True by simp
      show "\<not> (?np = peer \<and> ?nt = tag)" using True by simp
      show "\<not> ncclSuccess \<noteq> ncclSuccess" by simp
      show "accept_loop ?st2 peer tag data sz newPeer' newTag' = Returns r (d, st')"
        using "1.prems"(1) rec by simp
      show "unexpectedConnections ?st2 = Linked (q @ [?u])" by simp
    qed
    then obtain l' es where es:
      "st' = ?st2\<lparr>listenSock := l', unexpectedConnections := Linked ((q @ [?u]) @ es)\<rparr>"
      "ops l' = Suc (ops l + length es)" "parked peer tag l es" by auto
    from True acc obtain c where c: "filter ?P (backlog (listenSock state)) = c # filter ?P (backlog l)"
      "rx sock1 = snd c" "magic l = magic (listenSock state)"
      using accept_facts [of "ncclSocketInit [] 0" "listenSock state" sock1 l] by auto
    have suf: "suffix (rx sock3) (snd c)"
      using netrecv_suffix [OF n1] netrecv_suffix [OF n2] c(2)
      by (auto intro: suffix_order.trans)
    have "st' = state\<lparr>listenSock := l',
                  unexpectedConnections := Linked (q @ (?u # es))\<rparr>"
      using es(1) by simp
    moreover have "parked peer tag (listenSock state) (?u # es)"
      using es(3) True suf c(1,3) by (auto simp: parked_def)
    moreover have "ops l' = Suc (ops (listenSock state) + length (?u # es))"
      using es(2) opsl by simp
    ultimately show ?thesis by blast
  next
    case False
    then have "st' = ?st1"
      using "1.prems"(1)
      by (subst (asm) accept_loop.simps)
         (auto simp: acc n1 n2 n3 enq recv_exit_def split: if_splits)
    then have "st' = state\<lparr>listenSock := l,
                  unexpectedConnections := Linked (q @ [])\<rparr>"
      using "1.prems"(2) by simp
    moreover have "parked peer tag (listenSock state) []" by (simp add: parked_def)
    moreover have "ops l = Suc (ops (listenSock state) + length ([] :: unexConn list))"
      using opsl by simp
    ultimately show ?thesis by blast
  qed
qed

lemma find_None_takeWhile:
  "find P q = None \<Longrightarrow> takeWhile (\<lambda>e. \<not> P e) q @ tl (dropWhile (\<lambda>e. \<not> P e) q) = q"
  by (induction q) (auto split: if_splits)

text \<open>A frame of four bytes read into an \<^verbatim>\<open>int\<close>.\<close>

lemma netrecv_int:
  assumes "\<not> closed s" and "rx s = int_bytes 4 @ int_bytes w @ bs" and "length d \<le> 4"
  shows "bootstrapNetRecv s d sizeof_int =
           (ncclSuccess, int_bytes w, s\<lparr>rx := bs, ops := Suc (Suc (ops s))\<rparr>)"
proof -
  have four: "sint (4 :: int32) = 4" by simp
  have r1: "ncclSocketRecv s 4 =
      (ncclSuccess, int_bytes 4, s\<lparr>rx := int_bytes w @ bs, ops := Suc (ops s)\<rparr>)"
    using assms by (simp add: ncclSocketRecv_def length_int_bytes)
  have r2: "ncclSocketRecv (s\<lparr>rx := int_bytes w @ bs, ops := Suc (ops s)\<rparr>) 4 =
      (ncclSuccess, int_bytes w, s\<lparr>rx := bs, ops := Suc (Suc (ops s))\<rparr>)"
    using assms by (simp add: ncclSocketRecv_def length_int_bytes)
  have st: "store d 0 (int_bytes w) = int_bytes w"
    using assms(3) by (simp add: store_def length_int_bytes)
  show ?thesis
    by (simp add: bootstrapNetRecv_def sizeof_int_def r1 bytes_int_int_bytes four Let_def r2 st)
qed

text \<open>
  One turn of the accept loop on a connection made by \<open>bootstrapSend\<close> for another
  peer or tag: the connection is appended to the queue under its peer and tag.
\<close>

lemma accept_loop_park:
  assumes opn: "\<not> closed (listenSock st)"
    and bl: "backlog (listenSock st) = p2p_conn (magic (listenSock st)) m # rest"
    and nm: "\<not> unex_match p t (parked_entry m)"
    and q: "unexpectedConnections st = Linked q"
    and len: "length np \<le> 4" "length nt \<le> 4"
  shows "accept_loop st p t data sz np nt =
         accept_loop (st\<lparr>listenSock := (listenSock st)\<lparr>backlog := rest,
                                           ops := Suc (ops (listenSock st))\<rparr>,
                         unexpectedConnections := Linked (q @ [parked_entry m])\<rparr>)
           p t data sz (int_bytes (fst m)) (int_bytes (fst (snd m)))"
proof -
  obtain pw tw body where m: "m = (pw, tw, body)" by (cases m) auto
  let ?l = "(listenSock st)\<lparr>backlog := rest, ops := Suc (ops (listenSock st))\<rparr>"
  let ?s1 = "(ncclSocketInit [] 0)\<lparr>rx := int_bytes 4 @ int_bytes pw @ int_bytes 4 @ int_bytes tw @ body,
                ops := Suc 0\<rparr>"
  let ?s2 = "?s1\<lparr>rx := int_bytes 4 @ int_bytes tw @ body, ops := Suc (Suc (ops ?s1))\<rparr>"
  let ?s3 = "?s2\<lparr>rx := body, ops := Suc (Suc (ops ?s2))\<rparr>"
  have acc: "ncclSocketAccept (ncclSocketInit [] 0) (listenSock st) = (ncclSuccess, ?s1, ?l)"
    using opn bl by (simp add: ncclSocketAccept_def p2p_conn_def m ncclSocketInit_def)
  have n1: "bootstrapNetRecv ?s1 np sizeof_int = (ncclSuccess, int_bytes pw, ?s2)"
    using len by (intro netrecv_int) (simp_all add: ncclSocketInit_def)
  have n2: "bootstrapNetRecv ?s2 nt sizeof_int = (ncclSuccess, int_bytes tw, ?s3)"
    using len by (intro netrecv_int) (simp_all add: ncclSocketInit_def)
  have s3: "?s3 = accepted_sock body"
    by (simp add: accepted_sock_def ncclSocketInit_def)
  have enq: "unexpectedEnqueue (st\<lparr>listenSock := ?l\<rparr>) (sint pw) (sint tw) (accepted_sock body)
      = Returns ncclSuccess (st\<lparr>listenSock := ?l,
           unexpectedConnections := Linked (q @ [parked_entry m])\<rparr>)"
    using unexpectedEnqueue_eq [of "st\<lparr>listenSock := ?l\<rparr>" q "sint pw" "sint tw" "accepted_sock body"] q
    by (simp add: parked_entry_def m)
  have nm': "\<not> (sint pw = p \<and> sint tw = t)"
    using nm by (simp add: unex_match_def parked_entry_def m)
  show ?thesis
    apply (subst accept_loop.simps)
    apply (simp only: acc prod.case n1 n2 s3 bytes_int_int_bytes length_int_bytes)
    apply (simp add: nm' enq m)
    done
qed

lemma accept_loop_parks:
  assumes "\<not> closed (listenSock st)"
    and "backlog (listenSock st) = map (p2p_conn (magic (listenSock st))) msgs @ rest"
    and "\<forall>m\<in>set msgs. \<not> unex_match p t (parked_entry m)"
    and "unexpectedConnections st = Linked q"
    and "length np \<le> 4" "length nt \<le> 4"
  shows "\<exists>np' nt'. length np' \<le> 4 \<and> length nt' \<le> 4 \<and>
         accept_loop st p t data sz np nt =
         accept_loop (st\<lparr>listenSock := (listenSock st)\<lparr>backlog := rest,
                                           ops := ops (listenSock st) + length msgs\<rparr>,
                         unexpectedConnections := Linked (q @ map parked_entry msgs)\<rparr>)
           p t data sz np' nt'"
  using assms
proof (induction msgs arbitrary: st q np nt)
  case Nil
  have "st\<lparr>listenSock := (listenSock st)\<lparr>backlog := rest, ops := ops (listenSock st) + length ([] :: (int32 \<times> int32 \<times> byte list) list)\<rparr>,
           unexpectedConnections := Linked (q @ map parked_entry [])\<rparr> = st"
    using Nil.prems(2,4) by simp
  then show ?case using Nil.prems(5,6) by metis
next
  case (Cons m msgs)
  let ?l = "(listenSock st)\<lparr>backlog := map (p2p_conn (magic (listenSock st))) msgs @ rest,
                              ops := Suc (ops (listenSock st))\<rparr>"
  let ?st1 = "st\<lparr>listenSock := ?l, unexpectedConnections := Linked (q @ [parked_entry m])\<rparr>"
  have step: "accept_loop st p t data sz np nt =
              accept_loop ?st1 p t data sz (int_bytes (fst m)) (int_bytes (fst (snd m)))"
    using Cons.prems by (intro accept_loop_park) simp_all
  have "\<exists>np' nt'. length np' \<le> 4 \<and> length nt' \<le> 4 \<and>
         accept_loop ?st1 p t data sz (int_bytes (fst m)) (int_bytes (fst (snd m))) =
         accept_loop (?st1\<lparr>listenSock := (listenSock ?st1)\<lparr>backlog := rest,
                                           ops := ops (listenSock ?st1) + length msgs\<rparr>,
                         unexpectedConnections := Linked ((q @ [parked_entry m]) @ map parked_entry msgs)\<rparr>)
           p t data sz np' nt'"
    using Cons.prems by (intro Cons.IH) (simp_all add: length_int_bytes)
  then show ?case unfolding step by simp
qed

text \<open>The turn of the accept loop that finds the connection waited for.\<close>

lemma accept_loop_match:
  assumes opn: "\<not> closed (listenSock st)"
    and bl: "backlog (listenSock st) = p2p_conn (magic (listenSock st)) (pw, tw, body) # rest"
    and ma: "sint pw = p" "sint tw = t"
    and len: "length np \<le> 4" "length nt \<le> 4"
  shows "accept_loop st p t data sz np nt =
         Returns (fst (bootstrapNetRecv (accepted_sock body) data sz))
           (fst (snd (bootstrapNetRecv (accepted_sock body) data sz)),
            st\<lparr>listenSock := (listenSock st)\<lparr>backlog := rest,
                                           ops := Suc (ops (listenSock st))\<rparr>\<rparr>)"
proof -
  let ?l = "(listenSock st)\<lparr>backlog := rest, ops := Suc (ops (listenSock st))\<rparr>"
  let ?s1 = "(ncclSocketInit [] 0)\<lparr>rx := int_bytes 4 @ int_bytes pw @ int_bytes 4 @ int_bytes tw @ body,
                ops := Suc 0\<rparr>"
  let ?s2 = "?s1\<lparr>rx := int_bytes 4 @ int_bytes tw @ body, ops := Suc (Suc (ops ?s1))\<rparr>"
  let ?s3 = "?s2\<lparr>rx := body, ops := Suc (Suc (ops ?s2))\<rparr>"
  have acc: "ncclSocketAccept (ncclSocketInit [] 0) (listenSock st) = (ncclSuccess, ?s1, ?l)"
    using opn bl by (simp add: ncclSocketAccept_def p2p_conn_def ncclSocketInit_def)
  have n1: "bootstrapNetRecv ?s1 np sizeof_int = (ncclSuccess, int_bytes pw, ?s2)"
    using len by (intro netrecv_int) (simp_all add: ncclSocketInit_def)
  have n2: "bootstrapNetRecv ?s2 nt sizeof_int = (ncclSuccess, int_bytes tw, ?s3)"
    using len by (intro netrecv_int) (simp_all add: ncclSocketInit_def)
  have s3: "?s3 = accepted_sock body"
    by (simp add: accepted_sock_def ncclSocketInit_def)
  show ?thesis
    apply (subst accept_loop.simps)
    apply (simp only: acc prod.case n1 n2 s3 bytes_int_int_bytes length_int_bytes)
    using ma apply (simp add: recv_exit_eq split: prod.splits)
    done
qed

text \<open>The turn of the accept loop that finds no connection left.\<close>

lemma accept_loop_end:
  assumes opn: "\<not> closed (listenSock st)"
    and bl: "\<forall>c\<in>set (backlog (listenSock st)). fst c \<noteq> magic (listenSock st)"
  shows "accept_loop st p t data sz np nt =
         Returns ncclSystemError
           (data, st\<lparr>listenSock := (listenSock st)\<lparr>backlog := [],
                                           ops := Suc (ops (listenSock st))\<rparr>\<rparr>)"
proof -
  have dw: "dropWhile (\<lambda>c. fst c \<noteq> magic (listenSock st)) (backlog (listenSock st)) = []"
    using bl by simp
  have acc: "ncclSocketAccept (ncclSocketInit [] 0) (listenSock st) =
      (ncclSystemError, ncclSocketInit [] 0,
       (listenSock st)\<lparr>backlog := [], ops := Suc (ops (listenSock st))\<rparr>)"
    using opn unfolding ncclSocketAccept_def dw by simp
  show ?thesis
    by (subst accept_loop.simps) (simp add: acc recv_exit_eq)
qed

lemma bootstrapRecv_queued:
  assumes "unexpectedConnections st = Linked q" and "find (unex_match p t) q = Some e"
  shows "bootstrapRecv st p t data sz =
         Returns (fst (bootstrapNetRecv (unex_sock e) data sz))
           (fst (snd (bootstrapNetRecv (unex_sock e) data sz)),
            st\<lparr>unexpectedConnections := Linked
              (takeWhile (\<lambda>e. \<not> unex_match p t e) q
               @ tl (dropWhile (\<lambda>e. \<not> unex_match p t e) q))\<rparr>)"
  using assms(2)
  by (simp add: bootstrapRecv_def unexpectedDequeue_eq [OF assms(1)] recv_exit_eq
        split: prod.splits)

lemma bootstrapRecv_accepts:
  assumes "unexpectedConnections st = Linked q" and "find (unex_match p t) q = None"
  shows "bootstrapRecv st p t data sz = accept_loop st p t data sz [] []"
proof -
  have "st\<lparr>unexpectedConnections := Linked
              (takeWhile (\<lambda>e. \<not> unex_match p t e) q
               @ tl (dropWhile (\<lambda>e. \<not> unex_match p t e) q))\<rparr> = st"
    using assms by (simp add: find_None_takeWhile)
  then show ?thesis
    using assms(2)
    by (simp add: bootstrapRecv_def unexpectedDequeue_eq [OF assms(1)])
qed

lemma bootstrapRecv_parks_match:
  assumes q: "unexpectedConnections st = Linked q" and no: "find (unex_match p t) q = None"
    and opn: "\<not> closed (listenSock st)"
    and nm: "\<forall>m\<in>set msgs. \<not> unex_match p t (parked_entry m)"
    and bl: "backlog (listenSock st) =
               map (p2p_conn (magic (listenSock st))) msgs
               @ p2p_conn (magic (listenSock st)) (pw, tw, body) # rest"
    and ma: "sint pw = p" "sint tw = t"
  shows "bootstrapRecv st p t data sz =
         Returns (fst (bootstrapNetRecv (accepted_sock body) data sz))
           (fst (snd (bootstrapNetRecv (accepted_sock body) data sz)),
            st\<lparr>listenSock := (listenSock st)\<lparr>backlog := rest,
                    ops := Suc (ops (listenSock st) + length msgs)\<rparr>,
               unexpectedConnections := Linked (q @ map parked_entry msgs)\<rparr>)"
proof -
  let ?l = "(listenSock st)\<lparr>backlog := p2p_conn (magic (listenSock st)) (pw, tw, body) # rest,
                              ops := ops (listenSock st) + length msgs\<rparr>"
  let ?st1 = "st\<lparr>listenSock := ?l, unexpectedConnections := Linked (q @ map parked_entry msgs)\<rparr>"
  from accept_loop_parks [OF opn bl nm q, of "[]" "[]" data sz]
  obtain np' nt' where len: "length np' \<le> 4" "length nt' \<le> 4"
    and eq: "accept_loop st p t data sz [] [] = accept_loop ?st1 p t data sz np' nt'"
    by auto
  have "accept_loop ?st1 p t data sz np' nt' =
         Returns (fst (bootstrapNetRecv (accepted_sock body) data sz))
           (fst (snd (bootstrapNetRecv (accepted_sock body) data sz)),
            ?st1\<lparr>listenSock := (listenSock ?st1)\<lparr>backlog := rest,
                                           ops := Suc (ops (listenSock ?st1))\<rparr>\<rparr>)"
    using opn ma len by (intro accept_loop_match) simp_all
  then show ?thesis
    unfolding bootstrapRecv_accepts [OF q no] eq by simp
qed

lemma bootstrapRecv_parks_end:
  assumes q: "unexpectedConnections st = Linked q" and no: "find (unex_match p t) q = None"
    and opn: "\<not> closed (listenSock st)"
    and nm: "\<forall>m\<in>set msgs. \<not> unex_match p t (parked_entry m)"
    and bl: "backlog (listenSock st) = map (p2p_conn (magic (listenSock st))) msgs @ rest"
    and re: "\<forall>c\<in>set rest. fst c \<noteq> magic (listenSock st)"
  shows "bootstrapRecv st p t data sz =
         Returns ncclSystemError
           (data,
            st\<lparr>listenSock := (listenSock st)\<lparr>backlog := [],
                    ops := Suc (ops (listenSock st) + length msgs)\<rparr>,
               unexpectedConnections := Linked (q @ map parked_entry msgs)\<rparr>)"
proof -
  let ?l = "(listenSock st)\<lparr>backlog := rest, ops := ops (listenSock st) + length msgs\<rparr>"
  let ?st1 = "st\<lparr>listenSock := ?l, unexpectedConnections := Linked (q @ map parked_entry msgs)\<rparr>"
  from accept_loop_parks [OF opn bl nm q, of "[]" "[]" data sz]
  obtain np' nt' where eq: "accept_loop st p t data sz [] [] = accept_loop ?st1 p t data sz np' nt'"
    by auto
  have "accept_loop ?st1 p t data sz np' nt' =
         Returns ncclSystemError
           (data, ?st1\<lparr>listenSock := (listenSock ?st1)\<lparr>backlog := [],
                                           ops := Suc (ops (listenSock ?st1))\<rparr>\<rparr>)"
    using opn re by (intro accept_loop_end) simp_all
  then show ?thesis
    unfolding bootstrapRecv_accepts [OF q no] eq by simp
qed

text \<open>
  What \<open>bootstrapSend\<close> puts on the wire is a connection of the shape \<open>p2p_conn\<close>:
  the sender's rank, the tag, then the frame of the data.
\<close>

lemma bootstrapSend_conn:
  assumes "addr_at (peerCommAddresses st) peer = Some a"
  shows "\<exists>c. bootstrapSend st peer tag data sz = Returns ncclSuccess c \<and> addr c = a
           \<and> (magic c, tx c) =
               p2p_conn (st_magic st)
                 (word_of_int (st_rank st), word_of_int tag,
                  int_bytes (word_of_int sz) @ take (nat sz) data)"
  using assms
  by (simp add: bootstrapSend_def ncclSocketConnect_def ncclSocketInit_def bootstrapNetSend_def
        ncclSocketSend_def p2p_exit_def ncclSocketClose_def p2p_conn_def sizeof_int_def
        length_int_bytes)

text \<open>
  C2. On a state whose queue is the chain \<open>q\<close>: \<open>unexpectedDequeue\<close> hands out the
  socket of the earliest entry with the peer and tag asked for and keeps every other
  entry in its place; \<open>unexpectedEnqueue\<close> appends at the tail. A \<open>bootstrapRecv\<close>
  that finds such an entry in the queue receives from the socket of the earliest one and
  leaves the queue without it. When there is none and the connections \<open>msgs\<close> wait on
  the listening socket, none of them with the peer and tag asked for, the queue that
  \<open>bootstrapRecv\<close> leaves is \<open>q\<close> followed by one entry for each of \<open>msgs\<close>, in
  the order of their arrival and each with the peer, the tag and the socket of its
  connection: both when the next connection is the one waited for, from which the data
  is then received, and when no connection follows and the accept fails. Whatever the
  waiting connections carry, a \<open>bootstrapRecv\<close> that returns without a queued match
  has only appended to the queue, one entry for each connection it accepted but the
  last, none of them with the peer and tag asked for.
\<close>

theorem unexpected_queue_fifo:
  assumes "unexpectedConnections st = Linked q"
  shows
   "unexpectedDequeue st p t =
     Returns ncclSuccess
       (st\<lparr>unexpectedConnections := Linked
          (takeWhile (\<lambda>e. \<not> unex_match p t e) q @ tl (dropWhile (\<lambda>e. \<not> unex_match p t e) q))\<rparr>,
        map_option unex_sock (find (unex_match p t) q))
   \<and> unexpectedEnqueue st p' t' s =
     Returns ncclSuccess (st\<lparr>unexpectedConnections :=
        Linked (q @ [\<lparr>unex_peer = p', unex_tag = t', unex_sock = s\<rparr>])\<rparr>)
   \<and> (\<forall>e. find (unex_match p t) q = Some e \<longrightarrow>
        bootstrapRecv st p t data sz =
          Returns (fst (bootstrapNetRecv (unex_sock e) data sz))
            (fst (snd (bootstrapNetRecv (unex_sock e) data sz)),
             st\<lparr>unexpectedConnections := Linked
               (takeWhile (\<lambda>e. \<not> unex_match p t e) q
                @ tl (dropWhile (\<lambda>e. \<not> unex_match p t e) q))\<rparr>))
   \<and> (find (unex_match p t) q = None \<and> \<not> closed (listenSock st)
        \<and> (\<forall>m\<in>set msgs. \<not> unex_match p t (parked_entry m)) \<longrightarrow>
        (backlog (listenSock st) =
           map (p2p_conn (magic (listenSock st))) msgs
           @ p2p_conn (magic (listenSock st)) (pw, tw, body) # rest
         \<and> sint pw = p \<and> sint tw = t \<longrightarrow>
           bootstrapRecv st p t data sz =
             Returns (fst (bootstrapNetRecv (accepted_sock body) data sz))
               (fst (snd (bootstrapNetRecv (accepted_sock body) data sz)),
                st\<lparr>listenSock := (listenSock st)\<lparr>backlog := rest,
                        ops := Suc (ops (listenSock st) + length msgs)\<rparr>,
                   unexpectedConnections := Linked (q @ map parked_entry msgs)\<rparr>))
        \<and> (backlog (listenSock st) = map (p2p_conn (magic (listenSock st))) msgs @ rest
           \<and> (\<forall>c\<in>set rest. fst c \<noteq> magic (listenSock st)) \<longrightarrow>
           bootstrapRecv st p t data sz =
             Returns ncclSystemError
               (data,
                st\<lparr>listenSock := (listenSock st)\<lparr>backlog := [],
                        ops := Suc (ops (listenSock st) + length msgs)\<rparr>,
                   unexpectedConnections := Linked (q @ map parked_entry msgs)\<rparr>)))
   \<and> (\<forall>r d st'. find (unex_match p t) q = None
          \<and> bootstrapRecv st p t data sz = Returns r (d, st') \<longrightarrow>
        (\<exists>l es. st' = st\<lparr>listenSock := l, unexpectedConnections := Linked (q @ es)\<rparr>
           \<and> ops l = Suc (ops (listenSock st) + length es)
           \<and> parked p t (listenSock st) es))"
proof (intro conjI allI impI)
  show "unexpectedDequeue st p t =
     Returns ncclSuccess
       (st\<lparr>unexpectedConnections := Linked
          (takeWhile (\<lambda>e. \<not> unex_match p t e) q @ tl (dropWhile (\<lambda>e. \<not> unex_match p t e) q))\<rparr>,
        map_option unex_sock (find (unex_match p t) q))"
    using assms by (rule unexpectedDequeue_eq)
next
  show "unexpectedEnqueue st p' t' s =
     Returns ncclSuccess (st\<lparr>unexpectedConnections :=
        Linked (q @ [\<lparr>unex_peer = p', unex_tag = t', unex_sock = s\<rparr>])\<rparr>)"
    using assms by (rule unexpectedEnqueue_eq)
next
  fix e
  assume "find (unex_match p t) q = Some e"
  with assms show "bootstrapRecv st p t data sz =
          Returns (fst (bootstrapNetRecv (unex_sock e) data sz))
            (fst (snd (bootstrapNetRecv (unex_sock e) data sz)),
             st\<lparr>unexpectedConnections := Linked
               (takeWhile (\<lambda>e. \<not> unex_match p t e) q
                @ tl (dropWhile (\<lambda>e. \<not> unex_match p t e) q))\<rparr>)"
    by (rule bootstrapRecv_queued)
next
  assume a: "find (unex_match p t) q = None \<and> \<not> closed (listenSock st)
        \<and> (\<forall>m\<in>set msgs. \<not> unex_match p t (parked_entry m))"
    and b: "backlog (listenSock st) =
           map (p2p_conn (magic (listenSock st))) msgs
           @ p2p_conn (magic (listenSock st)) (pw, tw, body) # rest
         \<and> sint pw = p \<and> sint tw = t"
  show "bootstrapRecv st p t data sz =
             Returns (fst (bootstrapNetRecv (accepted_sock body) data sz))
               (fst (snd (bootstrapNetRecv (accepted_sock body) data sz)),
                st\<lparr>listenSock := (listenSock st)\<lparr>backlog := rest,
                        ops := Suc (ops (listenSock st) + length msgs)\<rparr>,
                   unexpectedConnections := Linked (q @ map parked_entry msgs)\<rparr>)"
    using a b by (intro bootstrapRecv_parks_match [OF assms]) blast+
next
  assume a: "find (unex_match p t) q = None \<and> \<not> closed (listenSock st)
        \<and> (\<forall>m\<in>set msgs. \<not> unex_match p t (parked_entry m))"
    and b: "backlog (listenSock st) = map (p2p_conn (magic (listenSock st))) msgs @ rest
           \<and> (\<forall>c\<in>set rest. fst c \<noteq> magic (listenSock st))"
  show "bootstrapRecv st p t data sz =
             Returns ncclSystemError
               (data,
                st\<lparr>listenSock := (listenSock st)\<lparr>backlog := [],
                        ops := Suc (ops (listenSock st) + length msgs)\<rparr>,
                   unexpectedConnections := Linked (q @ map parked_entry msgs)\<rparr>)"
    using a b by (intro bootstrapRecv_parks_end [OF assms]) blast+
next
  fix r d st'
  assume a: "find (unex_match p t) q = None
          \<and> bootstrapRecv st p t data sz = Returns r (d, st')"
  then have "accept_loop st p t data sz [] [] = Returns r (d, st')"
    using bootstrapRecv_accepts [OF assms, of p t data sz] by simp
  from accept_loop_effect [OF this assms]
  show "\<exists>l es. st' = st\<lparr>listenSock := l, unexpectedConnections := Linked (q @ es)\<rparr>
           \<and> ops l = Suc (ops (listenSock st) + length es)
           \<and> parked p t (listenSock st) es" .
qed

lemma fifo_example_facts:
  "unexpectedConnections fifo_example = Linked [parked_entry (3, 4, int_bytes 2 @ [122, 122])]"
  "find (unex_match 0 7) [parked_entry (3, 4, int_bytes 2 @ [122, 122])] = None"
  "\<not> closed (listenSock fifo_example)"
  "\<forall>m\<in>set [(1, 9, int_bytes 2 @ [120, 120]), (3, 4, int_bytes 2 @ [121, 121])].
      \<not> unex_match 0 7 (parked_entry m)"
  "backlog (listenSock fifo_example) =
     map (p2p_conn (magic (listenSock fifo_example)))
       [(1, 9, int_bytes 2 @ [120, 120]), (3, 4, int_bytes 2 @ [121, 121])]
     @ p2p_conn (magic (listenSock fifo_example)) (0, 7, int_bytes 2 @ [104, 105]) # []"
  "sint (0 :: int32) = 0" "sint (7 :: int32) = 7"
  by (simp_all add: fifo_example_def recv_example_def example_sock_def unex_match_def
        parked_entry_def)

lemma fifo_example_received_facts:
  "unexpectedConnections fifo_example_received = Linked
     [parked_entry (3, 4, int_bytes 2 @ [122, 122]),
      parked_entry (1, 9, int_bytes 2 @ [120, 120]),
      parked_entry (3, 4, int_bytes 2 @ [121, 121])]"
  "find (unex_match 3 4)
     [parked_entry (3, 4, int_bytes 2 @ [122, 122]),
      parked_entry (1, 9, int_bytes 2 @ [120, 120]),
      parked_entry (3, 4, int_bytes 2 @ [121, 121])]
   = Some (parked_entry (3, 4, int_bytes 2 @ [122, 122]))"
  by (simp_all add: fifo_example_received_def unex_match_def parked_entry_def)

lemma fifo_example_data:
  "bootstrapNetRecv (accepted_sock (int_bytes 2 @ [104, 105])) [0, 0] 2 =
     (ncclSuccess, [104, 105], (accepted_sock [])\<lparr>ops := 7\<rparr>)"
  "bootstrapNetRecv (accepted_sock (int_bytes 2 @ [122, 122])) [0, 0] 2 =
     (ncclSuccess, [122, 122], (accepted_sock [])\<lparr>ops := 7\<rparr>)"
  by code_simp+

theorem unexpected_queue_fifo_witness:
  "unexpectedConnections fifo_example = Linked [parked_entry (3, 4, int_bytes 2 @ [122, 122])]
   \<and> bootstrapRecv fifo_example 0 7 [0, 0] 2
       = Returns ncclSuccess ([104, 105], fifo_example_received)
   \<and> unexpectedConnections fifo_example_received = Linked
       [parked_entry (3, 4, int_bytes 2 @ [122, 122]),
        parked_entry (1, 9, int_bytes 2 @ [120, 120]),
        parked_entry (3, 4, int_bytes 2 @ [121, 121])]
   \<and> bootstrapRecv fifo_example_received 3 4 [0, 0] 2
       = Returns ncclSuccess ([122, 122], fifo_example_dequeued)"
proof -
  note a = unexpected_queue_fifo [where st = fifo_example and p = 0 and t = 7
      and msgs = "[(1, 9, int_bytes 2 @ [120, 120]), (3, 4, int_bytes 2 @ [121, 121])]"
      and pw = 0 and tw = 7 and body = "int_bytes 2 @ [104, 105]" and rest = "[]"
      and data = "[0, 0]" and sz = 2, OF fifo_example_facts(1)]
  have "bootstrapRecv fifo_example 0 7 [0, 0] 2 =
      Returns (fst (bootstrapNetRecv (accepted_sock (int_bytes 2 @ [104, 105])) [0, 0] 2))
        (fst (snd (bootstrapNetRecv (accepted_sock (int_bytes 2 @ [104, 105])) [0, 0] 2)),
         fifo_example\<lparr>listenSock := (listenSock fifo_example)\<lparr>backlog := [],
             ops := Suc (ops (listenSock fifo_example)
                    + length [(1 :: int32, 9 :: int32, int_bytes 2 @ [120, 120 :: byte]),
                              (3, 4, int_bytes 2 @ [121, 121])])\<rparr>,
           unexpectedConnections := Linked
             ([parked_entry (3, 4, int_bytes 2 @ [122, 122])]
              @ map parked_entry [(1, 9, int_bytes 2 @ [120, 120]),
                                  (3, 4, int_bytes 2 @ [121, 121])])\<rparr>)"
    using a fifo_example_facts(2-7) by blast
  then have r1: "bootstrapRecv fifo_example 0 7 [0, 0] 2
       = Returns ncclSuccess ([104, 105], fifo_example_received)"
    by (simp add: fifo_example_data fifo_example_def fifo_example_received_def
          recv_example_def example_sock_def)
  note b = unexpected_queue_fifo [where st = fifo_example_received and p = 3 and t = 4
      and data = "[0, 0]" and sz = 2, OF fifo_example_received_facts(1)]
  have "bootstrapRecv fifo_example_received 3 4 [0, 0] 2 =
      Returns (fst (bootstrapNetRecv (unex_sock (parked_entry (3, 4, int_bytes 2 @ [122, 122]))) [0, 0] 2))
        (fst (snd (bootstrapNetRecv (unex_sock (parked_entry (3, 4, int_bytes 2 @ [122, 122]))) [0, 0] 2)),
         fifo_example_received\<lparr>unexpectedConnections := Linked
           (takeWhile (\<lambda>e. \<not> unex_match 3 4 e)
              [parked_entry (3, 4, int_bytes 2 @ [122, 122]),
               parked_entry (1, 9, int_bytes 2 @ [120, 120]),
               parked_entry (3, 4, int_bytes 2 @ [121, 121])]
            @ tl (dropWhile (\<lambda>e. \<not> unex_match 3 4 e)
              [parked_entry (3, 4, int_bytes 2 @ [122, 122]),
               parked_entry (1, 9, int_bytes 2 @ [120, 120]),
               parked_entry (3, 4, int_bytes 2 @ [121, 121])]))\<rparr>)"
    using b fifo_example_received_facts(2) by blast
  then have r2: "bootstrapRecv fifo_example_received 3 4 [0, 0] 2
       = Returns ncclSuccess ([122, 122], fifo_example_dequeued)"
    by (simp add: fifo_example_data fifo_example_received_def fifo_example_dequeued_def
          unex_match_def parked_entry_def)
  from r1 r2 fifo_example_facts(1) fifo_example_received_facts(1) show ?thesis by simp
qed

text \<open>
  C9. With \<open>nranks = 1\<close> the barrier, the intra-node all-gather and the intra-node
  broadcast return \<open>ncclSuccess\<close> at once: no connection has been opened, and the state
  and the caller's buffer are the ones passed in.
\<close>

theorem single_rank_short_circuit:
  "bootstrapBarrier st ranks rank 1 tag data = Some (Returns ncclSuccess (st, []))
   \<and> bootstrapIntraNodeAllGather st ranks rank 1 allData sz = Returns ncclSuccess (allData, st, [])
   \<and> bootstrapIntraNodeBroadcast st ranks rank 1 rootRank bcastData sz
       = Returns ncclSuccess (bcastData, st, [])"
  by (simp add: bootstrapBarrier_def bootstrapIntraNodeAllGather_def
        bootstrapIntraNodeBroadcast_def)

lemma smod_nonneg: "0 \<le> a \<Longrightarrow> 0 < b \<Longrightarrow> a smod b = a mod (b::int)"
  by (simp add: smod_int_alt_def sgn_if)

lemma pow_less_iff_ceillog2:
  assumes "1 \<le> nranks"
  shows "(2::int) ^ k < nranks \<longleftrightarrow> k < ceillog2 (nat nranks)"
proof -
  have "ceillog2 (nat nranks) \<le> k \<longleftrightarrow> nat nranks \<le> 2 ^ k"
    using assms by (intro ceillog2_le_iff) simp
  also have "\<dots> \<longleftrightarrow> nranks \<le> 2 ^ k"
    by (simp add: nat_le_iff)
  finally show ?thesis by auto
qed

lemma sint_word_of_int_32:
  "0 \<le> sz \<Longrightarrow> sz < 2 ^ 31 \<Longrightarrow> sint (word_of_int sz :: int32) = sz"
  by (simp add: sint_sbintrunc' signed_take_bit_int_eq_self)

text \<open>The mask while it is a power of two below \<open>2 ^ 31\<close>, and the mask after that.\<close>

lemma sint_mask: "k \<le> 30 \<Longrightarrow> sint ((2 :: int32) ^ k) = 2 ^ k"
proof -
  assume k: "k \<le> 30"
  have "(2 :: int) ^ k \<le> 2 ^ 30" using k by (intro power_increasing) simp_all
  then have "sint (word_of_int (2 ^ k) :: int32) = 2 ^ k"
    by (intro sint_word_of_int_32) simp_all
  then show ?thesis by simp
qed

lemma sint_mask_min: "sint ((2 :: int32) ^ 31) = - (2 ^ 31)"
  by simp

text \<open>
  The loop from the mask \<open>2 ^ k\<close> up to the mask \<open>2 ^ K\<close>, as long as the masks on
  the way are below \<open>nranks\<close> and the sums stay in the range of \<^verbatim>\<open>int\<close>: it runs the
  rounds \<open>k, \<dots>, K - 1\<close> of the schedule and goes on with the mask \<open>2 ^ K\<close>.
\<close>

lemma barrier_loop_steps:
  assumes n: "1 \<le> nranks" and r: "0 \<le> rank" "rank < nranks"
    and len: "int (length ranks) = nranks"
    and K: "K \<le> 31"
    and bound: "\<And>j. j < K \<Longrightarrow>
        2 ^ j < nranks \<and> rank + 2 ^ j < 2 ^ 31 \<and> rank - 2 ^ j + nranks < 2 ^ 31"
    and cont: "\<And>st' data' conns'.
        barrier_loop st' ranks rank nranks tag data' (2 ^ K) conns' = Some (G st' conns')"
  shows "k \<le> K \<Longrightarrow>
    barrier_loop st ranks rank nranks tag data (2 ^ k) conns =
      Some (case run_rounds (concat (map (barrier_round ranks rank nranks tag) [k..<K]))
                   st data conns of
              Undefined \<Rightarrow> Undefined
            | Returns res sc \<Rightarrow> if res \<noteq> ncclSuccess then Returns res sc
                                else G (fst sc) (snd sc))"
proof (induction "K - k" arbitrary: k st data conns)
  case 0
  then have "k = K" by simp
  then show ?case by (simp add: cont)
next
  case (Suc d)
  then have klt: "k < K" by simp
  then have k30: "k \<le> 30" using K by simp
  have lt: "(2::int) ^ k < nranks"
    and up: "rank + 2 ^ k < 2 ^ 31" "rank - 2 ^ k + nranks < 2 ^ 31"
    using bound [OF klt] by simp_all
  have sm: "sint ((2 :: int32) ^ k) = 2 ^ k"
    using k30 by (rule sint_mask)
  have p30: "(2 :: int) ^ k \<le> 2 ^ 30"
    using k30 by (intro power_increasing) simp_all
  have ir: "int_range (rank - 2 ^ k)" "int_range (rank - 2 ^ k + nranks)"
    "int_range (rank + 2 ^ k)"
    using r n lt up p30 by (simp_all add: int_range_def)
  let ?dst = "(rank + 2 ^ k) mod nranks" and ?src = "(rank - 2 ^ k + nranks) mod nranks"
  have dst: "(rank + 2 ^ k) smod nranks = ?dst"
    using r n by (intro smod_nonneg) auto
  have src: "(rank - 2 ^ k + nranks) smod nranks = ?src"
    using r n lt by (intro smod_nonneg) auto
  have rd: "ranks_at ranks ?dst = Some (ranks ! nat ?dst)"
    using n len by (simp add: ranks_at_def)
  have rs: "ranks_at ranks ?src = Some (ranks ! nat ?src)"
    using n len by (simp add: ranks_at_def)
  have upt: "[k..<K] = k # [Suc k..<K]"
    using klt by (simp add: upt_conv_Cons)
  have IH: "barrier_loop st' ranks rank nranks tag data' (2 ^ Suc k) conns' =
      Some (case run_rounds (concat (map (barrier_round ranks rank nranks tag) [Suc k..<K]))
                   st' data' conns' of
              Undefined \<Rightarrow> Undefined
            | Returns res sc \<Rightarrow> if res \<noteq> ncclSuccess then Returns res sc
                                else G (fst sc) (snd sc))"
    for st' data' conns'
    using Suc.hyps(2) klt by (intro Suc.hyps(1)) auto
  have pb: "push_bit 1 ((2 :: int32) ^ k) = 2 ^ Suc k"
    by (simp add: push_bit_eq_mult)
  show ?case
    apply (subst barrier_loop.simps)
    apply (simp only: sm lt ir simp_thms if_True if_False Let_def dst src rd rs option.case pb IH
        upt list.map concat.simps barrier_round_def append_Cons append_Nil run_rounds.simps)
    apply (simp split: outcome.splits)
    done
qed

text \<open>A Recv that returns has changed the listening socket and the queue at most.\<close>

lemma bootstrapRecv_frame:
  assumes "bootstrapRecv st p t data sz = Returns r (d, st')"
  shows "\<exists>l q. st' = st\<lparr>listenSock := l, unexpectedConnections := q\<rparr>"
proof (cases "unexpectedConnections st")
  case (Released q)
  from released_undefined(2) [OF this] assms show ?thesis by simp
next
  case (Linked q)
  show ?thesis
  proof (cases "find (unex_match p t) q")
    case None
    have "accept_loop st p t data sz [] [] = Returns r (d, st')"
      using assms bootstrapRecv_accepts [OF Linked None] by simp
    from accept_loop_effect [OF this Linked] show ?thesis by blast
  next
    case (Some e)
    from bootstrapRecv_queued [OF Linked Some, of data sz] assms
    have "st' = st\<lparr>listenSock := listenSock st, unexpectedConnections := Linked
              (takeWhile (\<lambda>e. \<not> unex_match p t e) q
               @ tl (dropWhile (\<lambda>e. \<not> unex_match p t e) q))\<rparr>"
      by simp
    then show ?thesis by blast
  qed
qed

lemma run_rounds_frame:
  "run_rounds rounds st data conns = Returns r (st', conns') \<Longrightarrow>
   ringSendSocket st' = ringSendSocket st \<and> ringRecvSocket st' = ringRecvSocket st"
proof (induction rounds st data conns rule: run_rounds.induct)
  case (1 st data conns)
  then show ?case by simp
next
  case (2 p t rest st data conns)
  then show ?case by (auto split: outcome.splits if_splits)
next
  case (3 p t rest st data conns)
  show ?case
  proof (cases "bootstrapRecv st p t data sizeof_int")
    case Undefined
    with "3.prems" show ?thesis by simp
  next
    case (Returns r2 ds)
    obtain d2 st2 where ds: "ds = (d2, st2)" by (cases ds)
    from bootstrapRecv_frame [OF Returns [unfolded ds]]
    have f: "ringSendSocket st2 = ringSendSocket st" "ringRecvSocket st2 = ringRecvSocket st"
      by auto
    show ?thesis
    proof (cases "r2 = ncclSuccess")
      case True
      with "3.prems" Returns ds have "run_rounds rest st2 d2 conns = Returns r (st', conns')"
        by simp
      with "3.IH" [OF Returns _ ] True ds f show ?thesis by simp
    next
      case False
      with "3.prems" Returns ds f show ?thesis by auto
    qed
  qed
qed

lemma run_rounds_conns:
  "run_rounds rounds st data conns = Returns ncclSuccess (st', conns') \<Longrightarrow>
   length conns' = length conns + length (filter (\<lambda>x. case x of OpSend p t \<Rightarrow> True | _ \<Rightarrow> False) rounds)"
proof (induction rounds st data conns rule: run_rounds.induct)
  case (1 st data conns)
  then show ?case by simp
next
  case (2 p t rest st data conns)
  then show ?case by (auto split: outcome.splits if_splits)
next
  case (3 p t rest st data conns)
  then show ?case by (auto split: outcome.splits if_splits)
qed

lemma barrier_schedule_sends:
  "length (filter (\<lambda>x. case x of OpSend p t \<Rightarrow> True | _ \<Rightarrow> False)
             (concat (map (barrier_round ranks rank nranks tag) [0..<K]))) = K"
  by (simp add: barrier_round_def filter_concat comp_def length_concat sum_list_triv)

lemma barrier_in_range:
  assumes n: "1 \<le> nranks" "nranks \<le> 2 ^ 30" and r: "0 \<le> rank" "rank < nranks"
    and len: "int (length ranks) = nranks"
  shows "barrier_loop st ranks rank nranks tag data 1 [] =
           Some (run_rounds (barrier_schedule ranks rank nranks tag) st data [])"
proof -
  let ?K = "ceillog2 (nat nranks)"
  have "nat nranks \<le> 2 ^ 30"
    using n by (simp add: nat_le_iff)
  then have K30: "?K \<le> 30"
    using n by (subst ceillog2_le_iff) simp_all
  have bound: "2 ^ j < nranks \<and> rank + 2 ^ j < 2 ^ 31 \<and> rank - 2 ^ j + nranks < 2 ^ 31"
    if "j < ?K" for j
  proof -
    have a: "(2 :: int) ^ j < nranks"
      using that pow_less_iff_ceillog2 [OF n(1), of j] by simp
    have b: "(0 :: int) < 2 ^ j" by simp
    have c: "nranks \<le> 1073741824" using n by simp
    have "rank + 2 ^ j < 2147483648" "rank - 2 ^ j + nranks < 2147483648"
      using a b c r by linarith+
    with a show ?thesis by simp
  qed
  have cont: "barrier_loop st' ranks rank nranks tag data' (2 ^ ?K) conns'
                = Some (Returns ncclSuccess (st', conns'))" for st' data' conns'
  proof -
    have "\<not> (2 :: int) ^ ?K < nranks"
      using pow_less_iff_ceillog2 [OF n(1), of ?K] by simp
    then show ?thesis
      by (subst barrier_loop.simps) (simp add: sint_mask [OF K30])
  qed
  have "barrier_loop st ranks rank nranks tag data (2 ^ 0) [] =
      Some (case run_rounds (concat (map (barrier_round ranks rank nranks tag) [0..<?K]))
                   st data [] of
              Undefined \<Rightarrow> Undefined
            | Returns res sc \<Rightarrow> if res \<noteq> ncclSuccess then Returns res sc
                                else Returns ncclSuccess (fst sc, snd sc))"
    using K30 bound cont
    by (intro barrier_loop_steps [OF n(1) r len, where K = ?K
          and G = "\<lambda>st' conns'. Returns ncclSuccess (st', conns')"]) simp_all
  then show ?thesis
    by (simp add: barrier_schedule_def split: outcome.splits)
qed

text \<open>
  C6, within the range of the mask. For \<open>1 \<le> nranks \<le> 2 ^ 30\<close>, a rank in range and a
  \<open>ranks\<close> array of \<open>nranks\<close> entries, \<open>bootstrapBarrier\<close> is the run of the
  schedule: for each mask \<open>1, 2, 4, \<dots>\<close> below \<open>nranks\<close> one Send to
  \<open>ranks[(rank + mask) mod nranks]\<close>, then one Recv from
  \<open>ranks[(rank - mask + nranks) mod nranks]\<close>, both with the tag given. The schedule has
  \<open>\<lceil>log\<^sub>2 nranks\<rceil>\<close> rounds, a barrier that succeeds has opened that many
  connections, and whatever it returns the ring sockets are as they were.
\<close>

theorem bootstrapBarrier_rounds:
  assumes "1 \<le> nranks" and "nranks \<le> 2 ^ 30" and "0 \<le> rank" and "rank < nranks"
    and "int (length ranks) = nranks"
  shows "bootstrapBarrier st ranks rank nranks tag data =
           Some (run_rounds (barrier_schedule ranks rank nranks tag) st data [])
    \<and> length (barrier_schedule ranks rank nranks tag) = 2 * ceillog2 (nat nranks)
    \<and> (\<forall>st' conns. bootstrapBarrier st ranks rank nranks tag data
                       = Some (Returns ncclSuccess (st', conns))
          \<longrightarrow> length conns = ceillog2 (nat nranks))
    \<and> (\<forall>r st' conns. bootstrapBarrier st ranks rank nranks tag data
                       = Some (Returns r (st', conns))
          \<longrightarrow> ringSendSocket st' = ringSendSocket st \<and> ringRecvSocket st' = ringRecvSocket st)"
proof -
  let ?S = "barrier_schedule ranks rank nranks tag"
  have loop: "barrier_loop st ranks rank nranks tag data 1 [] = Some (run_rounds ?S st data [])"
    using assms by (rule barrier_in_range)
  have one: "nranks = 1 \<Longrightarrow> ?S = []"
    by (simp add: barrier_schedule_def)
  have eq: "bootstrapBarrier st ranks rank nranks tag data = Some (run_rounds ?S st data [])"
    using loop one by (simp add: bootstrapBarrier_def)
  have len: "length ?S = 2 * ceillog2 (nat nranks)"
    by (simp add: barrier_schedule_def barrier_round_def length_concat comp_def sum_list_triv)
  have sends: "length (filter (\<lambda>x. case x of OpSend p t \<Rightarrow> True | _ \<Rightarrow> False) ?S)
                 = ceillog2 (nat nranks)"
    unfolding barrier_schedule_def by (rule barrier_schedule_sends)
  show ?thesis
    unfolding eq using len sends
    by (auto dest: run_rounds_frame run_rounds_conns)
qed

lemma barrier_example_schedule:
  "barrier_schedule [0, 1, 2, 3] 2 4 5 = [OpSend 3 5, OpRecv 1 5, OpSend 0 5, OpRecv 0 5]"
  by code_simp

lemma barrier_example_run:
  "case run_rounds [OpSend 3 5, OpRecv 1 5, OpSend 0 5, OpRecv 0 5] barrier_example [0, 0, 0, 0] [] of
     Returns r (st', conns) \<Rightarrow>
       r = ncclSuccess \<and> map addr conns = [[3], [0]] \<and> backlog (listenSock st') = []
   | Undefined \<Rightarrow> False"
  by code_simp

theorem bootstrapBarrier_rounds_witness:
  "(1::int) \<le> 4 \<and> (4::int) \<le> 2 ^ 30 \<and> (0::int) \<le> 2 \<and> (2::int) < 4
   \<and> int (length [0, 1, 2, 3::int]) = 4
   \<and> bootstrapBarrier barrier_example [0, 1, 2, 3] 2 4 5 [0, 0, 0, 0] =
       Some (run_rounds [OpSend 3 5, OpRecv 1 5, OpSend 0 5, OpRecv 0 5]
               barrier_example [0, 0, 0, 0] [])
   \<and> (case run_rounds [OpSend 3 5, OpRecv 1 5, OpSend 0 5, OpRecv 0 5]
              barrier_example [0, 0, 0, 0] [] of
         Returns r (st', conns) \<Rightarrow>
           r = ncclSuccess \<and> map addr conns = [[3], [0]] \<and> backlog (listenSock st') = []
       | Undefined \<Rightarrow> False)"
  using bootstrapBarrier_rounds [of 4 2 "[0, 1, 2, 3]" barrier_example 5 "[0, 0, 0, 0]"]
    barrier_example_schedule barrier_example_run
  by simp

lemma pow2_bounds:
  assumes "j \<le> 30" and "m = (2 :: int) ^ j"
  shows "0 < m" "m \<le> 1073741824"
proof -
  show "0 < m" using assms(2) by simp
  have "(2 :: int) ^ j \<le> 2 ^ 30" using assms(1) by (intro power_increasing) simp_all
  then show "m \<le> 1073741824" using assms(2) by simp
qed

text \<open>The rounds of the barrier of \<open>wide_example\<close>.\<close>

lemma wide_round:
  assumes "j \<le> 30"
  shows "barrier_round wide_ranks 0 wide_n 5 j = [OpSend (2 ^ j) 5, OpRecv (wide_n - 2 ^ j) 5]"
proof -
  define m :: int where "m = 2 ^ j"
  note p = pow2_bounds [OF assms m_def]
  have d: "(0 + m) mod wide_n = m"
    using p by (simp add: wide_n_def)
  have "0 \<le> wide_n - m" "wide_n - m < wide_n"
    using p by (simp_all add: wide_n_def)
  then have "(wide_n - m) mod wide_n = wide_n - m"
    by (rule mod_pos_pos_trivial)
  then have s: "(0 - m + wide_n) mod wide_n = wide_n - m"
    by (simp add: algebra_simps)
  have nth: "wide_ranks ! nat i = i" if "0 \<le> i" "i < wide_n" for i
    using that by (simp add: wide_ranks_def)
  have "wide_ranks ! nat m = m" "wide_ranks ! nat (wide_n - m) = wide_n - m"
    using p by (intro nth; simp add: wide_n_def)+
  then have "barrier_round wide_ranks 0 wide_n 5 j = [OpSend m 5, OpRecv (wide_n - m) 5]"
    unfolding barrier_round_def m_def [symmetric] d s by simp
  then show ?thesis by (simp only: m_def)
qed

lemma wide_send:
  assumes "j \<le> 30"
  shows "bootstrapSend (wide_example_after i) (2 ^ j) 5 (int_bytes 0) sizeof_int
           = Returns ncclSuccess wide_conn"
proof -
  define m :: int where "m = 2 ^ j"
  note p = pow2_bounds [OF assms m_def]
  have "nat m < nat wide_n" using p by (simp add: wide_n_def)
  then have a: "addr_at (peerCommAddresses (wide_example_after i)) m = Some [0]"
    using p by (simp add: addr_at_def wide_example_after_def)
  have "bootstrapSend (wide_example_after i) m 5 (int_bytes 0) sizeof_int
           = Returns ncclSuccess wide_conn"
    unfolding bootstrapSend_def a
    by (simp add: ncclSocketConnect_def ncclSocketInit_def bootstrapNetSend_def
          ncclSocketSend_def p2p_exit_def ncclSocketClose_def sizeof_int_def
          length_int_bytes wide_example_after_def wide_conn_def)
  then show ?thesis by (simp only: m_def)
qed

lemma wide_recv:
  assumes j: "j \<le> 30" and d: "length data \<le> 4"
  shows "bootstrapRecv (wide_example_after j) (wide_n - 2 ^ j) 5 data sizeof_int
           = Returns ncclSuccess (int_bytes 0, wide_example_after (Suc j))"
proof -
  let ?st = "wide_example_after j"
  define m :: int where "m = 2 ^ j"
  note p = pow2_bounds [OF j m_def]
  have "sint (word_of_int (wide_n - m) :: int32) = wide_n - m"
    using p by (intro sint_word_of_int_32) (simp_all add: wide_n_def)
  then have pw: "sint (word_of_int (wide_n - 2 ^ j) :: int32) = wide_n - 2 ^ j"
    by (simp only: m_def)
  have upt: "[j..<31] = j # [Suc j..<31]"
    using j by (simp add: upt_conv_Cons)
  have bl: "backlog (listenSock ?st) =
      map (p2p_conn (magic (listenSock ?st))) []
      @ p2p_conn (magic (listenSock ?st))
          (word_of_int (wide_n - 2 ^ j), 5, int_bytes 4 @ int_bytes 0)
        # map wide_token [Suc j..<31]"
    by (simp add: wide_example_after_def upt wide_token_def example_sock_def)
  have nr: "bootstrapNetRecv (accepted_sock (int_bytes 4 @ int_bytes 0)) data sizeof_int =
      (ncclSuccess, int_bytes 0,
       (accepted_sock (int_bytes 4 @ int_bytes 0))\<lparr>rx := [], ops := Suc (Suc 5)\<rparr>)"
    using d netrecv_int [of "accepted_sock (int_bytes 4 @ int_bytes 0)" 0 "[]" data]
    by (simp add: accepted_sock_def)
  have "bootstrapRecv ?st (wide_n - 2 ^ j) 5 data sizeof_int =
      Returns (fst (bootstrapNetRecv (accepted_sock (int_bytes 4 @ int_bytes 0)) data sizeof_int))
        (fst (snd (bootstrapNetRecv (accepted_sock (int_bytes 4 @ int_bytes 0)) data sizeof_int)),
         ?st\<lparr>listenSock := (listenSock ?st)\<lparr>backlog := map wide_token [Suc j..<31],
                 ops := Suc (ops (listenSock ?st) + length ([] :: (int32 \<times> int32 \<times> byte list) list))\<rparr>,
            unexpectedConnections := Linked ([] @ map parked_entry [])\<rparr>)"
  proof (rule bootstrapRecv_parks_match [OF _ _ _ _ bl pw])
    show "unexpectedConnections ?st = Linked []" by (simp add: wide_example_after_def)
    show "find (unex_match (wide_n - 2 ^ j) 5) [] = None" by simp
    show "\<not> closed (listenSock ?st)" by (simp add: wide_example_after_def example_sock_def)
    show "\<forall>m\<in>set []. \<not> unex_match (wide_n - 2 ^ j) 5 (parked_entry m)" by simp
    show "sint (5 :: int32) = 5" by simp
  qed
  then show ?thesis
    by (simp add: nr wide_example_after_def)
qed

lemma wide_run:
  "j \<le> 31 \<Longrightarrow>
   run_rounds (concat (map (barrier_round wide_ranks 0 wide_n 5) [j..<31]))
     (wide_example_after j) (int_bytes 0) conns
   = Returns ncclSuccess (wide_example_after 31, conns @ replicate (31 - j) wide_conn)"
proof (induction "31 - j" arbitrary: j conns)
  case 0
  then have "j = 31" by simp
  then show ?case by simp
next
  case (Suc d)
  then have j: "j \<le> 30" by simp
  have upt: "[j..<31] = j # [Suc j..<31]"
    using j by (simp add: upt_conv_Cons)
  have snd: "bootstrapSend (wide_example_after j) (2 ^ j) 5 (int_bytes 0) sizeof_int
               = Returns ncclSuccess wide_conn"
    using j by (rule wide_send)
  have rcv: "bootstrapRecv (wide_example_after j) (wide_n - 2 ^ j) 5 (int_bytes 0) sizeof_int
           = Returns ncclSuccess (int_bytes 0, wide_example_after (Suc j))"
    using j by (intro wide_recv) (simp_all add: length_int_bytes)
  have rest: "run_rounds (concat (map (barrier_round wide_ranks 0 wide_n 5) [Suc j..<31]))
               (wide_example_after (Suc j)) (int_bytes 0) (conns @ [wide_conn])
             = Returns ncclSuccess
                 (wide_example_after 31, (conns @ [wide_conn]) @ replicate (31 - Suc j) wide_conn)"
    using Suc.hyps(2) j by (intro Suc.hyps(1)) simp_all
  have "31 - j = Suc (31 - Suc j)" using j by simp
  then have "conns @ replicate (31 - j) wide_conn
               = (conns @ [wide_conn]) @ replicate (31 - Suc j) wide_conn"
    by simp
  then show ?case
    by (simp add: upt wide_round [OF j] snd rcv rest)
qed

lemma wide_ceillog2: "ceillog2 (nat wide_n) = 31"
proof -
  have "(30 :: nat) < ceillog2 (nat wide_n)"
    using pow_less_iff_ceillog2 [of wide_n 30] by (simp add: wide_n_def)
  moreover have "\<not> (31 :: nat) < ceillog2 (nat wide_n)"
    using pow_less_iff_ceillog2 [of wide_n 31] by (simp add: wide_n_def)
  ultimately show ?thesis by simp
qed

text \<open>
  C6 as stated fails above \<open>2 ^ 30\<close> ranks. On rank 0 of \<open>2 ^ 30 + 1\<close> the schedule of
  the claim has \<open>\<lceil>log\<^sub>2 nranks\<rceil> = 31\<close> rounds and runs to \<open>ncclSuccess\<close> with 31
  connections opened. The barrier does not stop there: after the round with the mask
  \<open>2 ^ 30\<close> the mask is \<^verbatim>\<open>INT_MIN\<close>, which is below \<open>nranks\<close>, and the loop starts
  another iteration, whose \<^verbatim>\<open>rank - mask\<close> is outside the range of \<^verbatim>\<open>int\<close>.
\<close>

theorem bootstrapBarrier_wide_counterexample:
  "wide_n = 2 ^ 30 + 1 \<and> int (length wide_ranks) = wide_n
   \<and> ceillog2 (nat wide_n) = 31
   \<and> length (barrier_schedule wide_ranks 0 wide_n 5) = 62
   \<and> run_rounds (barrier_schedule wide_ranks 0 wide_n 5) wide_example (int_bytes 0) []
         = Returns ncclSuccess (wide_example_after 31, replicate 31 wide_conn)
   \<and> bootstrapBarrier wide_example wide_ranks 0 wide_n 5 (int_bytes 0) = Some Undefined"
proof -
  have sched: "barrier_schedule wide_ranks 0 wide_n 5
                 = concat (map (barrier_round wide_ranks 0 wide_n 5) [0..<31])"
    by (simp only: barrier_schedule_def wide_ceillog2)
  have run:
    "run_rounds (concat (map (barrier_round wide_ranks 0 wide_n 5) [0..<31]))
        wide_example (int_bytes 0) []
       = Returns ncclSuccess (wide_example_after 31, replicate 31 wide_conn)"
    using wide_run [of 0 "[]"] by (simp add: wide_example_def)
  have len: "int (length wide_ranks) = wide_n"
    by (simp add: wide_ranks_def wide_n_def)
  have bound: "2 ^ j < wide_n \<and> (0 :: int) + 2 ^ j < 2 ^ 31 \<and> (0 :: int) - 2 ^ j + wide_n < 2 ^ 31"
    if "j < 31" for j
  proof -
    define m :: int where "m = 2 ^ j"
    have "j \<le> 30" using that by simp
    note p = pow2_bounds [OF this m_def]
    have "m < wide_n \<and> 0 + m < 2 ^ 31 \<and> 0 - m + wide_n < 2 ^ 31"
      using p by (simp add: wide_n_def)
    then show ?thesis by (simp only: m_def)
  qed
  have cont: "barrier_loop st' wide_ranks 0 wide_n 5 data' (2 ^ 31) conns' = Some Undefined"
    for st' data' conns'
    by (subst barrier_loop.simps) (simp add: wide_n_def int_range_def)
  have "barrier_loop wide_example wide_ranks 0 wide_n 5 (int_bytes 0) (2 ^ 0) [] =
      Some (case run_rounds (concat (map (barrier_round wide_ranks 0 wide_n 5) [0..<31]))
                   wide_example (int_bytes 0) [] of
              Undefined \<Rightarrow> Undefined
            | Returns res sc \<Rightarrow> if res \<noteq> ncclSuccess then Returns res sc else Undefined)"
    using bound cont len
    by (intro barrier_loop_steps [where K = 31 and G = "\<lambda>st' conns'. Undefined"])
       (simp_all add: wide_n_def)
  moreover have "wide_n \<noteq> 1" by (simp add: wide_n_def)
  ultimately
  have "bootstrapBarrier wide_example wide_ranks 0 wide_n 5 (int_bytes 0) = Some Undefined"
    by (simp add: bootstrapBarrier_def run)
  moreover have "length (barrier_schedule wide_ranks 0 wide_n 5) = 62"
    unfolding sched
    by (simp add: barrier_round_def length_concat comp_def sum_list_triv)
  ultimately show ?thesis
    using run len wide_ceillog2 sched by (simp add: wide_n_def)
qed

declare allgather_loop.simps [simp del]

lemma length_store: "off + length bs \<le> length buf \<Longrightarrow> length (store buf off bs) = length buf"
  by (simp add: store_def)

lemma nth_store:
  assumes "off + length bs \<le> length buf" and "k < length buf"
  shows "store buf off bs ! k =
           (if off \<le> k \<and> k < off + length bs then bs ! (k - off) else buf ! k)"
  using assms by (auto simp: store_def nth_append)

lemma load_store_other:
  assumes "off + length bs \<le> length buf" and "o2 + n \<le> off \<or> off + length bs \<le> o2"
  shows "load (store buf off bs) o2 n = load buf o2 n"
proof (rule nth_equalityI)
  show "length (load (store buf off bs) o2 n) = length (load buf o2 n)"
    using assms(1) by (simp add: load_def length_store)
next
  fix k assume "k < length (load (store buf off bs) o2 n)"
  then have k: "k < n" "o2 + k < length buf"
    using assms(1) by (auto simp: load_def length_store)
  then show "load (store buf off bs) o2 n ! k = load buf o2 n ! k"
    using assms by (auto simp: load_def length_store nth_store)
qed

lemma load_store_same:
  "off + length bs \<le> length buf \<Longrightarrow> load (store buf off bs) off (length bs) = bs"
  by (simp add: load_def store_def)

lemma mem_put_store:
  "off \<le> length d \<Longrightarrow> mem_put d (int off) (store (drop off d) 0 bs) = store d off bs"
  by (simp add: mem_put_def store_def add.commute)

lemma netrecv_shape:
  assumes "bootstrapNetRecv s dest z = (r, mem, s')"
  shows "\<exists>bs. mem = store dest 0 bs \<and> length bs \<le> nat z"
proof -
  obtain r1 lenb s1 where a: "ncclSocketRecv s sizeof_int = (r1, lenb, s1)"
    by (cases "ncclSocketRecv s sizeof_int") auto
  obtain r2 bs s2 where b: "ncclSocketRecv s1 (min (sint (bytes_int lenb)) z) = (r2, bs, s2)"
    by (cases "ncclSocketRecv s1 (min (sint (bytes_int lenb)) z)") auto
  have b': "ncclSocketRecv s1 (sint (bytes_int lenb)) = (r2, bs, s2)" if "\<not> z < sint (bytes_int lenb)"
    using b that by (simp add: min_def)
  have len: "length bs \<le> nat z"
    using b by (auto simp: ncclSocketRecv_def split: if_splits)
  have "mem = dest \<or> mem = store dest 0 bs"
    using assms
    by (auto simp: bootstrapNetRecv_def a b' Let_def split: if_splits)
  moreover have "dest = store dest 0 []" by (simp add: store_def)
  ultimately show ?thesis using len
    by (metis list.size(3) zero_le)
qed

lemma slice_bounds:
  fixes rank nranks i :: int
  assumes "0 \<le> rank" "rank < nranks" "0 \<le> i" "i < nranks - 1"
  shows "(rank - i - 1 + nranks) smod nranks = (rank - i - 1) mod nranks"
    and "(rank - i + nranks) smod nranks = (rank - i) mod nranks"
    and "(rank - i - 1) mod nranks \<noteq> rank"
    and "0 \<le> (rank - i - 1) mod nranks" and "(rank - i - 1) mod nranks < nranks"
    and "0 \<le> (rank - i) mod nranks" and "(rank - i) mod nranks < nranks"
proof -
  show "(rank - i - 1 + nranks) smod nranks = (rank - i - 1) mod nranks"
    using assms by (simp add: smod_nonneg)
  show "(rank - i + nranks) smod nranks = (rank - i) mod nranks"
    using assms by (simp add: smod_nonneg)
  show "(rank - i - 1) mod nranks \<noteq> rank"
  proof (cases "0 \<le> rank - i - 1")
    case True
    then have "(rank - i - 1) mod nranks = rank - i - 1"
      using assms by (intro mod_pos_pos_trivial) auto
    then show ?thesis using assms by simp
  next
    case False
    have "(rank - i - 1) mod nranks = (rank - i - 1 + nranks) mod nranks" by simp
    also have "\<dots> = rank - i - 1 + nranks"
      using assms False by (intro mod_pos_pos_trivial) auto
    finally show ?thesis using assms by simp
  qed
  show "0 \<le> (rank - i - 1) mod nranks" "(rank - i - 1) mod nranks < nranks"
    "0 \<le> (rank - i) mod nranks" "(rank - i) mod nranks < nranks"
    using assms by auto
qed


lemma slice_offset:
  fixes R n sz :: int
  assumes "0 \<le> R" "R < n" "0 \<le> sz" "int (length d) = n * sz"
  shows "nat (R * sz) = nat R * nat sz" and "nat R * nat sz + nat sz \<le> length d"
    and "mem_at d (R * sz) = Some (drop (nat R * nat sz) d)"
proof -
  show o: "nat (R * sz) = nat R * nat sz"
    using assms by (simp add: nat_mult_distrib)
  have "(R + 1) * sz \<le> n * sz"
    using assms by (intro mult_right_mono) auto
  then have "int (nat R * nat sz + nat sz) \<le> int (length d)"
    using assms by (simp add: algebra_simps)
  then show l: "nat R * nat sz + nat sz \<le> length d" by linarith
  have "0 \<le> R * sz" using assms by simp
  moreover have "R * sz \<le> int (length d)"
    using l o \<open>0 \<le> R * sz\<close> by linarith
  ultimately show "mem_at d (R * sz) = Some (drop (nat R * nat sz) d)"
    using o by (simp add: mem_at_def)
qed

lemma store_nil: "off \<le> length d \<Longrightarrow> store d off [] = d"
  by (simp add: store_def)

lemma allgather_body_shape:
  assumes rk: "0 \<le> st_rank st" "st_rank st < st_nranks st"
    and i: "0 \<le> i" "i < st_nranks st - 1"
    and sz: "0 \<le> sz" and len: "int (length d) = st_nranks st * sz"
    and run: "allgather_body st d sz i = Returns r (d2, st2)"
  shows "\<exists>bs ss rs. length bs \<le> nat sz
           \<and> d2 = store d (nat ((st_rank st - i - 1) mod st_nranks st) * nat sz) bs
           \<and> st2 = st\<lparr>ringSendSocket := ss, ringRecvSocket := rs\<rparr>"
proof -
  let ?n = "st_nranks st"
  let ?R = "(st_rank st - i - 1) mod ?n" and ?S = "(st_rank st - i) mod ?n"
  let ?off = "nat ?R * nat sz"
  note sb = slice_bounds [OF rk i]
  note ro = slice_offset [OF sb(4) sb(5) sz len]
  note so = slice_offset [OF sb(6) sb(7) sz len]
  obtain r1 ss where s1: "bootstrapNetSend (ringSendSocket st) (drop (nat ?S * nat sz) d) sz = (r1, ss)"
    by (cases "bootstrapNetSend (ringSendSocket st) (drop (nat ?S * nat sz) d) sz") auto
  obtain r2 mem rs where s2: "bootstrapNetRecv (ringRecvSocket st) (drop ?off d) sz = (r2, mem, rs)"
    by (cases "bootstrapNetRecv (ringRecvSocket st) (drop ?off d) sz") auto
  from netrecv_shape [OF s2] obtain bs where bs: "mem = store (drop ?off d) 0 bs" "length bs \<le> nat sz"
    by blast
  have off: "?off \<le> length d" using ro(2) by linarith
  have put: "mem_put d (?R * sz) mem = store d ?off bs"
    using mem_put_store [OF off, of bs] bs(1) ro(1) sb(4) sz
    by (simp add: mem_put_def)
  show ?thesis
  proof (cases "r1 = ncclSuccess")
    case True
    then have "d2 = store d ?off bs" "st2 = st\<lparr>ringSendSocket := ss, ringRecvSocket := rs\<rparr>"
      using run by (simp_all add: allgather_body_def Let_def sb(1,2) ro(3) so(3) s1 s2 put)
    with bs(2) show ?thesis by blast
  next
    case False
    then have "d2 = d" "st2 = st\<lparr>ringSendSocket := ss\<rparr>"
      using run by (simp_all add: allgather_body_def Let_def sb(1,2) so(3) s1)
    then have "d2 = store d ?off []"
      "st2 = st\<lparr>ringSendSocket := ss, ringRecvSocket := ringRecvSocket st\<rparr>"
      using off by (simp_all add: store_nil)
    then show ?thesis by (metis list.size(3) zero_le)
  qed
qed

text \<open>The all-gather never writes outside the receive slices, whatever it returns.\<close>

lemma allgather_loop_own_slice:
  "0 \<le> st_rank st \<Longrightarrow> st_rank st < st_nranks st \<Longrightarrow> 0 \<le> i \<Longrightarrow> 0 \<le> sz \<Longrightarrow>
   int (length d) = st_nranks st * sz \<Longrightarrow>
   allgather_loop st d sz i = Returns r (d', st') \<Longrightarrow>
   load d' (nat (st_rank st) * nat sz) (nat sz) = load d (nat (st_rank st) * nat sz) (nat sz)
   \<and> length d' = length d \<and> st_rank st' = st_rank st \<and> st_nranks st' = st_nranks st"
proof (induction st d sz i rule: allgather_loop.induct)
  case (1 state data sz i)
  show ?case
  proof (cases "i < st_nranks state - 1")
    case False
    with "1.prems" show ?thesis by (simp add: allgather_loop.simps)
  next
    case True
    let ?n = "st_nranks state"
    let ?R = "(st_rank state - i - 1) mod ?n"
    note sb = slice_bounds [OF "1.prems"(1,2,3) True]
    note ro = slice_offset [OF sb(4) sb(5) "1.prems"(4,5)]
    from "1.prems"(6) True obtain r2 d2 st2 where
      body: "allgather_body state data sz i = Returns r2 (d2, st2)"
      by (subst (asm) allgather_loop.simps) (auto split: outcome.splits)
    from allgather_body_shape [OF "1.prems"(1,2,3) True "1.prems"(4,5) body]
    obtain bs ss rs where bs: "length bs \<le> nat sz" "d2 = store data (nat ?R * nat sz) bs"
      "st2 = state\<lparr>ringSendSocket := ss, ringRecvSocket := rs\<rparr>" by blast
    have fit: "nat ?R * nat sz + length bs \<le> length data"
      using ro(2) bs(1) by linarith
    have ne: "nat ?R \<noteq> nat (st_rank state)"
      using sb(3,4) "1.prems"(1) by (simp add: nat_eq_iff)
    have disj: "nat (st_rank state) * nat sz + nat sz \<le> nat ?R * nat sz
                \<or> nat ?R * nat sz + length bs \<le> nat (st_rank state) * nat sz"
    proof (cases "nat (st_rank state) < nat ?R")
      case True
      then have "nat (st_rank state) + 1 \<le> nat ?R" by linarith
      then have "(nat (st_rank state) + 1) * nat sz \<le> nat ?R * nat sz"
        by (rule mult_le_mono1)
      then show ?thesis by simp
    next
      case False
      with ne have "nat ?R + 1 \<le> nat (st_rank state)" by linarith
      then have "(nat ?R + 1) * nat sz \<le> nat (st_rank state) * nat sz"
        by (rule mult_le_mono1)
      with bs(1) show ?thesis by simp
    qed
    have own2: "load d2 (nat (st_rank state) * nat sz) (nat sz)
                  = load data (nat (st_rank state) * nat sz) (nat sz)"
      unfolding bs(2) using fit disj by (rule load_store_other)
    have len2: "length d2 = length data"
      unfolding bs(2) using fit by (rule length_store)
    show ?thesis
    proof (cases "r2 = ncclSuccess")
      case False
      with "1.prems"(6) True body have "d' = d2" "st' = st2"
        by (subst (asm) allgather_loop.simps, simp)+
      with own2 len2 bs(3) show ?thesis by simp
    next
      case ok: True
      with "1.prems"(6) True body have rec: "allgather_loop st2 d2 sz (i + 1) = Returns r (d', st')"
        by (subst (asm) allgather_loop.simps) simp
      have "load d' (nat (st_rank st2) * nat sz) (nat sz) = load d2 (nat (st_rank st2) * nat sz) (nat sz)
            \<and> length d' = length d2 \<and> st_rank st' = st_rank st2 \<and> st_nranks st' = st_nranks st2"
        using "1.IH" [OF True body] ok rec "1.prems" bs(3) len2
        by simp
      with own2 len2 bs(3) show ?thesis by simp
    qed
  qed
qed

lemma netsend_success:
  assumes "bootstrapNetSend s src sz = (ncclSuccess, s')"
  shows "\<not> closed s"
    and "s' = s\<lparr>tx := tx s @ int_bytes (word_of_int sz) @ take (nat sz) src,
                ops := Suc (Suc (ops s))\<rparr>"
  using assms
  by (auto simp: bootstrapNetSend_def ncclSocketSend_def split: if_splits)

lemma netrecv_success:
  assumes "bootstrapNetRecv s dest z = (ncclSuccess, mem, s')"
  shows "\<exists>lenb payload. rx s = lenb @ payload @ rx s' \<and> length lenb = 4
           \<and> sint (bytes_int lenb) \<le> z \<and> length payload = nat (sint (bytes_int lenb))
           \<and> mem = store dest 0 payload \<and> \<not> closed s \<and> closed s' = closed s"
proof -
  obtain r1 lenb s1 where a: "ncclSocketRecv s sizeof_int = (r1, lenb, s1)"
    by (cases "ncclSocketRecv s sizeof_int") auto
  have r1: "r1 = ncclSuccess"
    using assms by (auto simp: bootstrapNetRecv_def a split: if_splits)
  have nc: "\<not> closed s" and l4: "4 \<le> length (rx s)" and lenb: "lenb = take 4 (rx s)"
    and s1: "rx s1 = drop 4 (rx s)" "closed s1 = closed s"
    using a r1 by (auto simp: ncclSocketRecv_def sizeof_int_def split: if_splits)
  let ?w = "sint (bytes_int lenb)"
  have le: "?w \<le> z"
    using assms by (auto simp: bootstrapNetRecv_def a r1 Let_def split: if_splits)
  then have m: "min ?w z = ?w" by simp
  obtain r2 bs s2 where b: "ncclSocketRecv s1 ?w = (r2, bs, s2)"
    by (cases "ncclSocketRecv s1 ?w") auto
  have fin: "r2 = ncclSuccess" "mem = store dest 0 bs" "s' = s2"
    using assms le by (auto simp: bootstrapNetRecv_def a r1 Let_def m b split: if_splits)
  have bs: "bs = take (nat ?w) (rx s1)" "nat ?w \<le> length (rx s1)" "rx s2 = drop (nat ?w) (rx s1)"
    "closed s2 = closed s1"
    using b fin(1) by (auto simp: ncclSocketRecv_def split: if_splits)
  have "rx s1 = bs @ rx s2"
    unfolding bs(1) bs(3) by simp
  then have "rx s = lenb @ bs @ rx s2"
    unfolding lenb using s1(1) append_take_drop_id [of 4 "rx s"] by simp
  moreover have "length lenb = 4" using l4 lenb by simp
  moreover have "length bs = nat ?w" using bs(1,2) by simp
  ultimately show ?thesis
    using le fin nc bs(4) s1(2) by blast
qed

text \<open>What one iteration that succeeds has sent and received.\<close>

lemma allgather_body_success:
  assumes rk: "0 \<le> st_rank st" "st_rank st < st_nranks st"
    and i: "0 \<le> i" "i < st_nranks st - 1"
    and sz: "0 \<le> sz" and len: "int (length d) = st_nranks st * sz"
    and run: "allgather_body st d sz i = Returns ncclSuccess (d2, st2)"
  shows "\<exists>lenb payload.
      tx (ringSendSocket st2) = tx (ringSendSocket st) @ int_bytes (word_of_int sz)
         @ load d (nat ((st_rank st - i) mod st_nranks st) * nat sz) (nat sz)
    \<and> rx (ringRecvSocket st) = lenb @ payload @ rx (ringRecvSocket st2)
    \<and> length lenb = 4 \<and> sint (bytes_int lenb) \<le> sz
    \<and> length payload = nat (sint (bytes_int lenb))
    \<and> d2 = store d (nat ((st_rank st - i - 1) mod st_nranks st) * nat sz) payload
    \<and> st_rank st2 = st_rank st \<and> st_nranks st2 = st_nranks st"
proof -
  let ?n = "st_nranks st"
  let ?R = "(st_rank st - i - 1) mod ?n" and ?S = "(st_rank st - i) mod ?n"
  let ?off = "nat ?R * nat sz"
  note sb = slice_bounds [OF rk i]
  note ro = slice_offset [OF sb(4) sb(5) sz len]
  note so = slice_offset [OF sb(6) sb(7) sz len]
  obtain r1 ss where s1: "bootstrapNetSend (ringSendSocket st) (drop (nat ?S * nat sz) d) sz = (r1, ss)"
    by (cases "bootstrapNetSend (ringSendSocket st) (drop (nat ?S * nat sz) d) sz") auto
  obtain r2 mem rs where s2: "bootstrapNetRecv (ringRecvSocket st) (drop ?off d) sz = (r2, mem, rs)"
    by (cases "bootstrapNetRecv (ringRecvSocket st) (drop ?off d) sz") auto
  have r1: "r1 = ncclSuccess"
    using run by (auto simp: allgather_body_def Let_def sb(1,2) so(3) s1 split: if_splits)
  have res: "r2 = ncclSuccess" "d2 = mem_put d (?R * sz) mem"
    "st2 = st\<lparr>ringSendSocket := ss, ringRecvSocket := rs\<rparr>"
    using run by (simp_all add: allgather_body_def Let_def sb(1,2) ro(3) so(3) s1 s2 r1)
  from netrecv_success [OF s2 [unfolded res(1)]] obtain lenb payload where
    p: "rx (ringRecvSocket st) = lenb @ payload @ rx rs" "length lenb = 4"
       "sint (bytes_int lenb) \<le> sz" "length payload = nat (sint (bytes_int lenb))"
       "mem = store (drop ?off d) 0 payload"
    by blast
  have off: "?off \<le> length d" using ro(2) by linarith
  have put: "d2 = store d ?off payload"
    using mem_put_store [OF off, of payload] p(5) ro(1) sb(4) sz res(2)
    by (simp add: mem_put_def)
  have "tx ss = tx (ringSendSocket st) @ int_bytes (word_of_int sz)
                  @ load d (nat ?S * nat sz) (nat sz)"
    using netsend_success(2) [OF s1 [unfolded r1]] by (simp add: load_def)
  with p put res(3) show ?thesis by auto
qed

lemma allgather_loop_tx:
  "0 \<le> st_rank st \<Longrightarrow> st_rank st < st_nranks st \<Longrightarrow> 0 \<le> i \<Longrightarrow> 0 \<le> sz \<Longrightarrow>
   int (length d) = st_nranks st * sz \<Longrightarrow>
   allgather_loop st d sz i = Returns ncclSuccess (d', st') \<Longrightarrow>
   \<exists>sent. tx (ringSendSocket st') = tx (ringSendSocket st) @ sent"
proof (induction st d sz i rule: allgather_loop.induct)
  case (1 state data sz i)
  show ?case
  proof (cases "i < st_nranks state - 1")
    case False
    with "1.prems" show ?thesis by (simp add: allgather_loop.simps)
  next
    case True
    from "1.prems"(6) True obtain r2 d2 st2 where
      body: "allgather_body state data sz i = Returns r2 (d2, st2)"
      by (subst (asm) allgather_loop.simps) (auto split: outcome.splits)
    have ok: "r2 = ncclSuccess"
      using "1.prems"(6) True body
      by (subst (asm) allgather_loop.simps) (auto split: if_splits)
    have rec: "allgather_loop st2 d2 sz (i + 1) = Returns ncclSuccess (d', st')"
      using "1.prems"(6) True body ok by (subst (asm) allgather_loop.simps) simp
    from allgather_body_success [OF "1.prems"(1,2,3) True "1.prems"(4,5) body [unfolded ok]]
    obtain g where g: "tx (ringSendSocket st2) = tx (ringSendSocket state) @ g"
      "st_rank st2 = st_rank state" "st_nranks st2 = st_nranks state"
      by blast
    from allgather_body_shape [OF "1.prems"(1,2,3) True "1.prems"(4,5) body]
    obtain bs where bs: "length bs \<le> nat sz"
      "d2 = store data (nat ((st_rank state - i - 1) mod st_nranks state) * nat sz) bs"
      by blast
    note sb = slice_bounds [OF "1.prems"(1,2,3) True]
    note ro = slice_offset [OF sb(4) sb(5) "1.prems"(4,5)]
    have len2: "length d2 = length data"
      unfolding bs(2) using ro(2) bs(1) by (intro length_store) linarith
    have "\<exists>sent. tx (ringSendSocket st') = tx (ringSendSocket st2) @ sent"
      using "1.IH" [OF True body] ok rec "1.prems" g len2 by simp
    with g(1) show ?thesis by auto
  qed
qed

lemma slices_disjoint:
  fixes a b s :: nat
  assumes "a \<noteq> b" and "length bs \<le> s"
  shows "a * s + s \<le> b * s \<or> b * s + length bs \<le> a * s"
proof (cases "a < b")
  case True
  then have "a + 1 \<le> b" by linarith
  then have "(a + 1) * s \<le> b * s" by (rule mult_le_mono1)
  then show ?thesis by simp
next
  case False
  with assms(1) have "b + 1 \<le> a" by linarith
  then have "(b + 1) * s \<le> a * s" by (rule mult_le_mono1)
  with assms(2) show ?thesis by simp
qed

lemma slice_index_distinct:
  fixes q j i n :: int
  assumes "0 \<le> j" "j \<le> i" "i + 1 < n"
  shows "(q - j) mod n \<noteq> (q - i - 1) mod n"
proof
  assume "(q - j) mod n = (q - i - 1) mod n"
  then have "n dvd (q - j) - (q - i - 1)" by (simp add: mod_eq_dvd_iff)
  then have "n dvd i + 1 - j" by (simp add: algebra_simps)
  moreover have "0 < i + 1 - j" using assms by simp
  ultimately have "n \<le> i + 1 - j" by (rule zdvd_imp_le)
  with assms show False by simp
qed

lemma prefix_frames:
  assumes "prefix (a @ b @ u) (a' @ b' @ v)" and "length a = length a'" and "length b = length b'"
  shows "a = a'" and "b = b'" and "prefix u v"
  using assms by (auto simp: prefix_def)

text \<open>
  The ring, step by step. \<open>S\<close> and \<open>D\<close> are the states and buffers of the ranks
  when each is about to run iteration \<open>i\<close>; \<open>S'\<close> and \<open>D'\<close> are what the ranks
  return. The bytes a rank has yet to send are a prefix of what its successor has yet to
  receive, and each rank already holds the contributions \<open>c\<close> of the \<open>i\<close> ranks
  before it and its own.
\<close>

lemma ring_inv:
  fixes n :: nat and sz :: int and c :: "nat \<Rightarrow> byte list"
    and S' :: "nat \<Rightarrow> bootstrapState" and D' :: "nat \<Rightarrow> byte list"
  assumes n: "0 < n" and sz: "0 < sz" "sz < 2 ^ 31" and c: "\<forall>m<n. length (c m) = nat sz"
  shows "i + k = n - 1 \<Longrightarrow>
     (\<forall>r<n. st_rank (S r) = int r \<and> st_nranks (S r) = int n
            \<and> int (length (D r)) = int n * sz) \<Longrightarrow>
     (\<forall>r<n. allgather_loop (S r) (D r) sz (int i) = Returns ncclSuccess (D' r, S' r)) \<Longrightarrow>
     (\<forall>q<n. prefix (drop (length (tx (ringSendSocket (S (nat ((int q - 1) mod int n))))))
                        (tx (ringSendSocket (S' (nat ((int q - 1) mod int n))))))
                    (rx (ringRecvSocket (S q)))) \<Longrightarrow>
     (\<forall>r<n. \<forall>j\<le>i. load (D r) (nat ((int r - int j) mod int n) * nat sz) (nat sz)
                       = c (nat ((int r - int j) mod int n))) \<Longrightarrow>
     (\<forall>r<n. \<forall>m<n. load (D' r) (m * nat sz) (nat sz) = c m)"
proof (induction k arbitrary: i S D)
  case 0
  then have i: "i = n - 1" by simp
  show ?case
  proof (intro allI impI)
    fix r m assume r: "r < n" and m: "m < n"
    have "D' r = D r"
      using "0.prems"(2,3) r i by (auto simp: allgather_loop.simps)
    define j where "j = nat ((int r - int m) mod int n)"
    have jn: "int j = (int r - int m) mod int n" using n by (simp add: j_def)
    have "j < n" using n jn by (metis Euclidean_Rings.pos_mod_bound of_nat_0_less_iff of_nat_less_iff)
    then have "j \<le> i" using i by simp
    have "(int r - int j) mod int n = (int r - (int r - int m)) mod int n"
      unfolding jn by (simp add: mod_diff_right_eq)
    also have "\<dots> = int m" using m by simp
    finally have "nat ((int r - int j) mod int n) = m" by simp
    with "0.prems"(5) r \<open>j \<le> i\<close> \<open>D' r = D r\<close> show "load (D' r) (m * nat sz) (nat sz) = c m"
      by metis
  qed
next
  case (Suc k)
  then have i: "i + 1 < n" by simp
  let ?W = "word_of_int sz :: int32"
  define D2 where "D2 r = (case allgather_body (S r) (D r) sz (int i) of Returns x ds \<Rightarrow> fst ds)" for r
  define S2 where "S2 r = (case allgather_body (S r) (D r) sz (int i) of Returns x ds \<Rightarrow> snd ds)" for r
  have wf: "0 \<le> st_rank (S r)" "st_rank (S r) < st_nranks (S r)" "0 \<le> int i"
    "int i < st_nranks (S r) - 1" "0 \<le> sz" "int (length (D r)) = st_nranks (S r) * sz"
    "st_rank (S r) = int r" "st_nranks (S r) = int n"
    if "r < n" for r
    using Suc.prems(2) that i sz by auto
  have body: "allgather_body (S r) (D r) sz (int i) = Returns ncclSuccess (D2 r, S2 r)"
    and rec: "allgather_loop (S2 r) (D2 r) sz (int (Suc i)) = Returns ncclSuccess (D' r, S' r)"
    if rn: "r < n" for r
  proof -
    have run: "allgather_loop (S r) (D r) sz (int i) = Returns ncclSuccess (D' r, S' r)"
      using Suc.prems(3) rn by simp
    then obtain r2 ds where b: "allgather_body (S r) (D r) sz (int i) = Returns r2 ds"
      using wf(4) [OF rn]
      by (subst (asm) allgather_loop.simps) (auto split: outcome.splits)
    have ok: "r2 = ncclSuccess"
      using run wf(4) [OF rn] b
      by (subst (asm) allgather_loop.simps) (auto split: if_splits)
    show "allgather_body (S r) (D r) sz (int i) = Returns ncclSuccess (D2 r, S2 r)"
      using b ok by (simp add: D2_def S2_def)
    show "allgather_loop (S2 r) (D2 r) sz (int (Suc i)) = Returns ncclSuccess (D' r, S' r)"
      using run wf(4) [OF rn] b ok
      by (subst (asm) allgather_loop.simps) (simp add: D2_def S2_def add.commute)
  qed
  have step: "\<exists>lenb payload.
      tx (ringSendSocket (S2 r)) = tx (ringSendSocket (S r)) @ int_bytes ?W
         @ load (D r) (nat ((int r - int i) mod int n) * nat sz) (nat sz)
    \<and> rx (ringRecvSocket (S r)) = lenb @ payload @ rx (ringRecvSocket (S2 r))
    \<and> length lenb = 4 \<and> sint (bytes_int lenb) \<le> sz
    \<and> length payload = nat (sint (bytes_int lenb))
    \<and> D2 r = store (D r) (nat ((int r - int i - 1) mod int n) * nat sz) payload
    \<and> st_rank (S2 r) = int r \<and> st_nranks (S2 r) = int n"
    if "r < n" for r
    using allgather_body_success [OF wf(1-6) [OF that] body [OF that]] wf(7,8) [OF that]
    by simp
  have fit: "nat ((int r - int i - 1) mod int n) * nat sz + nat sz \<le> length (D r)"
    if "r < n" for r
  proof -
    note sb = slice_bounds [OF wf(1-4) [OF that]]
    from slice_offset(2) [OF sb(4) sb(5) wf(5,6) [OF that]] wf(7,8) [OF that]
    show ?thesis by simp
  qed
  text \<open>What each rank receives in this iteration is what its predecessor sends.\<close>
  have recv: "D2 q = store (D q) (nat ((int q - int i - 1) mod int n) * nat sz)
                       (c (nat ((int q - int i - 1) mod int n)))
      \<and> prefix (drop (length (tx (ringSendSocket (S2 (nat ((int q - 1) mod int n))))))
                        (tx (ringSendSocket (S' (nat ((int q - 1) mod int n))))))
                (rx (ringRecvSocket (S2 q)))"
    if q: "q < n" for q
  proof -
    define p where "p = nat ((int q - 1) mod int n)"
    have pn: "int p = (int q - 1) mod int n" using n by (simp add: p_def)
    have p: "p < n"
      using n pn by (metis Euclidean_Rings.pos_mod_bound of_nat_0_less_iff of_nat_less_iff)
    define \<rho> where "\<rho> = nat ((int q - int i - 1) mod int n)"
    have sig: "nat ((int p - int i) mod int n) = \<rho>"
    proof -
      have "(int p - int i) mod int n = (int q - 1 - int i) mod int n"
        unfolding pn by (simp add: mod_diff_left_eq)
      then show ?thesis by (simp add: \<rho>_def algebra_simps)
    qed
    have \<rho>n: "\<rho> < n"
      using n unfolding \<rho>_def
      by (metis Euclidean_Rings.pos_mod_bound Euclidean_Rings.pos_mod_sign nat_less_iff
          of_nat_0_less_iff)
    from step [OF p] obtain lenbp payloadp where
      sp: "tx (ringSendSocket (S2 p)) = tx (ringSendSocket (S p)) @ int_bytes ?W
             @ load (D p) (nat ((int p - int i) mod int n) * nat sz) (nat sz)"
      by blast
    have own: "load (D p) (nat ((int p - int i) mod int n) * nat sz) (nat sz) = c \<rho>"
      using Suc.prems(5) p sig by (metis le_refl)
    have sp': "tx (ringSendSocket (S2 p)) = tx (ringSendSocket (S p)) @ int_bytes ?W @ c \<rho>"
      using sp own by simp
    have "0 \<le> st_rank (S2 p)" "st_rank (S2 p) < st_nranks (S2 p)"
      "int (length (D2 p)) = st_nranks (S2 p) * sz"
    proof -
      from step [OF p] obtain lb pl where
        s: "D2 p = store (D p) (nat ((int p - int i - 1) mod int n) * nat sz) pl"
           "length pl = nat (sint (bytes_int lb))" "sint (bytes_int lb) \<le> sz"
           "st_rank (S2 p) = int p" "st_nranks (S2 p) = int n"
        by blast
      have "length pl \<le> nat sz" using s(2,3) by simp
      then have "length (D2 p) = length (D p)"
        unfolding s(1) using fit [OF p] by (intro length_store) linarith
      then show "0 \<le> st_rank (S2 p)" "st_rank (S2 p) < st_nranks (S2 p)"
        "int (length (D2 p)) = st_nranks (S2 p) * sz"
        using s(4,5) p wf(6,8) [OF p] by simp_all
    qed
    from allgather_loop_tx [OF this(1,2) _ _ this(3) rec [OF p]] sz
    obtain sent2 where fin: "tx (ringSendSocket (S' p)) = tx (ringSendSocket (S2 p)) @ sent2"
      by auto
    have pend: "drop (length (tx (ringSendSocket (S p)))) (tx (ringSendSocket (S' p)))
                  = int_bytes ?W @ c \<rho> @ sent2"
      unfolding fin sp' by simp
    have pend2: "drop (length (tx (ringSendSocket (S2 p)))) (tx (ringSendSocket (S' p))) = sent2"
      unfolding fin by simp
    from step [OF q] obtain lenb payload where
      sq: "rx (ringRecvSocket (S q)) = lenb @ payload @ rx (ringRecvSocket (S2 q))"
          "length lenb = 4" "length payload = nat (sint (bytes_int lenb))"
          "D2 q = store (D q) (\<rho> * nat sz) payload"
      unfolding \<rho>_def by blast
    have wire: "prefix (int_bytes ?W @ c \<rho> @ sent2) (lenb @ payload @ rx (ringRecvSocket (S2 q)))"
      using Suc.prems(4) q pend sq(1) unfolding p_def by metis
    have l4: "length (int_bytes ?W) = length lenb"
      using sq(2) by (simp add: length_int_bytes)
    have lenb: "int_bytes ?W = lenb"
      using wire l4 by (auto simp: prefix_def)
    have "sint (bytes_int lenb) = sz"
      unfolding lenb [symmetric] bytes_int_int_bytes using sz by (intro sint_word_of_int_32) auto
    then have lp: "length (c \<rho>) = length payload"
      using sq(3) c \<rho>n by simp
    from prefix_frames [OF wire l4 lp]
    have "c \<rho> = payload" "prefix sent2 (rx (ringRecvSocket (S2 q)))" by simp_all
    then show ?thesis
      using sq(4) pend2 unfolding \<rho>_def p_def by simp
  qed
  have wf2: "\<forall>r<n. st_rank (S2 r) = int r \<and> st_nranks (S2 r) = int n
            \<and> int (length (D2 r)) = int n * sz"
  proof (intro allI impI)
    fix r assume r: "r < n"
    have \<rho>n: "nat ((int r - int i - 1) mod int n) < n"
      using n
      by (metis Euclidean_Rings.pos_mod_bound Euclidean_Rings.pos_mod_sign nat_less_iff
          of_nat_0_less_iff)
    have "length (D2 r) = length (D r)"
      using recv [OF r] fit [OF r] c \<rho>n by (simp add: length_store)
    with step [OF r] wf(6,8) [OF r]
    show "st_rank (S2 r) = int r \<and> st_nranks (S2 r) = int n \<and> int (length (D2 r)) = int n * sz"
      by auto
  qed
  have inv2: "\<forall>r<n. \<forall>j\<le>Suc i. load (D2 r) (nat ((int r - int j) mod int n) * nat sz) (nat sz)
                       = c (nat ((int r - int j) mod int n))"
  proof (intro allI impI)
    fix r j assume r: "r < n" and j: "j \<le> Suc i"
    let ?\<rho> = "nat ((int r - int i - 1) mod int n)"
    have \<rho>n: "?\<rho> < n"
      using n
      by (metis Euclidean_Rings.pos_mod_bound Euclidean_Rings.pos_mod_sign nat_less_iff
          of_nat_0_less_iff)
    have d2: "D2 r = store (D r) (?\<rho> * nat sz) (c ?\<rho>)" using recv [OF r] by simp
    have lc: "length (c ?\<rho>) = nat sz" using c \<rho>n by simp
    have fit': "?\<rho> * nat sz + length (c ?\<rho>) \<le> length (D r)"
      using fit [OF r] lc by simp
    show "load (D2 r) (nat ((int r - int j) mod int n) * nat sz) (nat sz)
            = c (nat ((int r - int j) mod int n))"
    proof (cases "j = Suc i")
      case True
      then have idx: "nat ((int r - int j) mod int n) = ?\<rho>"
        by (simp add: algebra_simps)
      show ?thesis
        unfolding idx d2 using load_store_same [OF fit'] lc by simp
    next
      case False
      with j have ji: "j \<le> i" by simp
      have "(int r - int j) mod int n \<noteq> (int r - int i - 1) mod int n"
        using ji i by (intro slice_index_distinct) auto
      moreover have "0 \<le> (int r - int j) mod int n" "0 \<le> (int r - int i - 1) mod int n"
        using n by simp_all
      ultimately have ne: "nat ((int r - int j) mod int n) \<noteq> ?\<rho>"
        by (simp add: nat_eq_iff)
      have "load (D2 r) (nat ((int r - int j) mod int n) * nat sz) (nat sz)
              = load (D r) (nat ((int r - int j) mod int n) * nat sz) (nat sz)"
        unfolding d2
        using fit' slices_disjoint [OF ne, of "c ?\<rho>" "nat sz"] lc
        by (intro load_store_other) auto
      with Suc.prems(5) r ji show ?thesis by simp
    qed
  qed
  show ?case
  proof (rule Suc.IH [of "Suc i" S2 D2])
    show "Suc i + k = n - 1" using Suc.prems(1) by simp
    show "\<forall>r<n. st_rank (S2 r) = int r \<and> st_nranks (S2 r) = int n
            \<and> int (length (D2 r)) = int n * sz" by (rule wf2)
    show "\<forall>r<n. allgather_loop (S2 r) (D2 r) sz (int (Suc i)) = Returns ncclSuccess (D' r, S' r)"
      using rec by simp
    show "\<forall>q<n. prefix (drop (length (tx (ringSendSocket (S2 (nat ((int q - 1) mod int n))))))
                        (tx (ringSendSocket (S' (nat ((int q - 1) mod int n))))))
                    (rx (ringRecvSocket (S2 q)))"
      using recv by simp
    show "\<forall>r<n. \<forall>j\<le>Suc i. load (D2 r) (nat ((int r - int j) mod int n) * nat sz) (nat sz)
                       = c (nat ((int r - int j) mod int n))" by (rule inv2)
  qed
qed

text \<open>
  C1. Take \<open>n \<ge> 1\<close> ranks and a slice size \<open>sz > 0\<close>. Rank \<open>r\<close> starts in state
  \<open>st r\<close> with the buffer \<open>data r\<close> of \<open>n\<close> slices, its contribution being the slice
  \<open>r\<close>. If \<open>bootstrapAllGather\<close> returns \<open>ncclSuccess\<close> on every rank, and the bytes
  each rank \<open>r\<close> wrote to its send socket during the call are what the receive socket of
  rank \<open>(r + 1) mod n\<close> delivers, then on every rank the slice \<open>i\<close> of the buffer
  returned is the contribution of rank \<open>i\<close>.
\<close>

theorem ring_allgather_correct:
  fixes n :: nat and sz :: int
  assumes "1 \<le> n" and "0 < sz" and "sz < 2 ^ 31"
    and wf: "\<forall>r<n. st_rank (st r) = int r \<and> st_nranks (st r) = int n
                \<and> int (length (data r)) = int n * sz"
    and run: "\<forall>r<n. bootstrapAllGather (st r) (data r) sz = Returns ncclSuccess (data' r, st' r)"
    and wire: "\<forall>r<n. prefix (drop (length (tx (ringSendSocket (st r))))
                              (tx (ringSendSocket (st' r))))
                        (rx (ringRecvSocket (st ((r + 1) mod n))))"
  shows "\<forall>r<n. \<forall>i<n. load (data' r) (i * nat sz) (nat sz) = load (data i) (i * nat sz) (nat sz)"
proof -
  define c where "c i = load (data i) (i * nat sz) (nat sz)" for i
  have n: "0 < n" using assms(1) by simp
  have lc: "\<forall>m<n. length (c m) = nat sz"
  proof (intro allI impI)
    fix m assume m: "m < n"
    have "int (Suc m) * sz \<le> int n * sz"
      using m assms(2) by (intro mult_right_mono) auto
    then have "int (m * nat sz + nat sz) \<le> int (length (data m))"
      using wf m assms(2) by (simp add: algebra_simps)
    then have "m * nat sz + nat sz \<le> length (data m)" by linarith
    then show "length (c m) = nat sz" by (simp add: c_def load_def)
  qed
  have wire': "\<forall>q<n. prefix (drop (length (tx (ringSendSocket (st (nat ((int q - 1) mod int n))))))
                        (tx (ringSendSocket (st' (nat ((int q - 1) mod int n))))))
                    (rx (ringRecvSocket (st q)))"
  proof (intro allI impI)
    fix q assume q: "q < n"
    define p where "p = nat ((int q - 1) mod int n)"
    have pn: "int p = (int q - 1) mod int n" using n by (simp add: p_def)
    have p: "p < n"
      using n pn by (metis Euclidean_Rings.pos_mod_bound of_nat_0_less_iff of_nat_less_iff)
    have "int ((p + 1) mod n) = (int p + 1) mod int n"
      by (simp add: zmod_int add.commute)
    also have "\<dots> = (int q - 1 + 1) mod int n"
      unfolding pn by (simp add: mod_add_left_eq)
    also have "\<dots> = int q" using q by simp
    finally have "(p + 1) mod n = q" by simp
    with wire p show "prefix (drop (length (tx (ringSendSocket (st (nat ((int q - 1) mod int n))))))
                        (tx (ringSendSocket (st' (nat ((int q - 1) mod int n))))))
                    (rx (ringRecvSocket (st q)))"
      unfolding p_def by metis
  qed
  have inv0: "\<forall>r<n. \<forall>j\<le>0. load (data r) (nat ((int r - int j) mod int n) * nat sz) (nat sz)
                       = c (nat ((int r - int j) mod int n))"
    by (simp add: c_def)
  have run': "\<forall>r<n. allgather_loop (st r) (data r) sz (int 0) = Returns ncclSuccess (data' r, st' r)"
    using run by (simp add: bootstrapAllGather_def)
  have "\<forall>r<n. \<forall>m<n. load (data' r) (m * nat sz) (nat sz) = c m"
    using ring_inv [OF n assms(2,3) lc, of 0 "n - 1" st data data' st'] wf run' wire' inv0
    by simp
  then show ?thesis by (simp add: c_def)
qed

lemma ring_example_run:
  "bootstrapAllGather (ring_state 0) (ring_data 0) 1 = Returns ncclSuccess (ring_contrib, ring_final 0)"
  "bootstrapAllGather (ring_state 1) (ring_data 1) 1 = Returns ncclSuccess (ring_contrib, ring_final 1)"
  "bootstrapAllGather (ring_state 2) (ring_data 2) 1 = Returns ncclSuccess (ring_contrib, ring_final 2)"
  "bootstrapAllGather (ring_state 3) (ring_data 3) 1 = Returns ncclSuccess (ring_contrib, ring_final 3)"
  by code_simp+

lemma less_4_cases: "r < 4 \<Longrightarrow> r = 0 \<or> r = 1 \<or> r = 2 \<or> r = (3::nat)"
  by auto

theorem ring_allgather_correct_witness:
  "bootstrapAllGather (ring_state 0) (ring_data 0) 1 = Returns ncclSuccess (ring_contrib, ring_final 0)
   \<and> bootstrapAllGather (ring_state 1) (ring_data 1) 1 = Returns ncclSuccess (ring_contrib, ring_final 1)
   \<and> bootstrapAllGather (ring_state 2) (ring_data 2) 1 = Returns ncclSuccess (ring_contrib, ring_final 2)
   \<and> bootstrapAllGather (ring_state 3) (ring_data 3) 1 = Returns ncclSuccess (ring_contrib, ring_final 3)
   \<and> load ring_contrib (0 * nat 1) (nat 1) = load (ring_data 0) (0 * nat 1) (nat 1)
   \<and> load ring_contrib (1 * nat 1) (nat 1) = load (ring_data 1) (1 * nat 1) (nat 1)
   \<and> load ring_contrib (2 * nat 1) (nat 1) = load (ring_data 2) (2 * nat 1) (nat 1)
   \<and> load ring_contrib (3 * nat 1) (nat 1) = load (ring_data 3) (3 * nat 1) (nat 1)"
proof -
  have run: "\<forall>r<4. bootstrapAllGather (ring_state r) (ring_data r) 1
             = Returns ncclSuccess (ring_contrib, ring_final r)"
    using ring_example_run by (auto dest!: less_4_cases)
  have wf: "\<forall>r<4. st_rank (ring_state r) = int r \<and> st_nranks (ring_state r) = int 4
                \<and> int (length (ring_data r)) = int 4 * 1"
    by (simp add: ring_state_def ring_data_def recv_example_def)
  have wire: "\<forall>r<4. prefix (drop (length (tx (ringSendSocket (ring_state r))))
                              (tx (ringSendSocket (ring_final r))))
                        (rx (ringRecvSocket (ring_state ((r + 1) mod 4))))"
  proof (intro allI impI)
    fix r :: nat assume "r < 4"
    then have "(r + 1) mod 4 + 3 = r + 4 \<or> (r + 1) mod 4 + 3 = r" by (auto dest!: less_4_cases)
    then have "((r + 1) mod 4 + 3) mod 4 = r" using \<open>r < 4\<close> by auto
    then show "prefix (drop (length (tx (ringSendSocket (ring_state r))))
                              (tx (ringSendSocket (ring_final r))))
                        (rx (ringRecvSocket (ring_state ((r + 1) mod 4))))"
      by (simp add: ring_state_def ring_final_def recv_example_def example_sock_def)
  qed
  have all: "\<forall>r<4::nat. \<forall>i<4. load ring_contrib (i * nat 1) (nat 1)
                              = load (ring_data i) (i * nat 1) (nat 1)"
    using ring_allgather_correct [of 4 1 ring_state ring_data "\<lambda>r. ring_contrib" ring_final]
      wf run wire
    by simp
  from all [rule_format, of 0 0] all [rule_format, of 0 1] all [rule_format, of 0 2]
    all [rule_format, of 0 3] ring_example_run
  show ?thesis by simp
qed

lemma allgather_body_frame:
  "allgather_body st d sz i = Returns r (d2, st2) \<Longrightarrow>
   \<exists>ss rs. st2 = st\<lparr>ringSendSocket := ss, ringRecvSocket := rs\<rparr>"
proof -
  assume a: "allgather_body st d sz i = Returns r (d2, st2)"
  have "(\<exists>ss. st2 = st\<lparr>ringSendSocket := ss\<rparr>)
        \<or> (\<exists>ss rs. st2 = st\<lparr>ringSendSocket := ss, ringRecvSocket := rs\<rparr>)"
    using a
    by (auto simp: allgather_body_def Let_def split: option.splits prod.splits if_splits)
  then show ?thesis
  proof
    assume "\<exists>ss. st2 = st\<lparr>ringSendSocket := ss\<rparr>"
    then obtain ss where "st2 = st\<lparr>ringSendSocket := ss, ringRecvSocket := ringRecvSocket st\<rparr>"
      by auto
    then show ?thesis by blast
  qed
qed

lemma allgather_loop_frame:
  "allgather_loop st d sz i = Returns r (d', st') \<Longrightarrow>
   \<exists>ss rs. st' = st\<lparr>ringSendSocket := ss, ringRecvSocket := rs\<rparr>"
proof (induction st d sz i rule: allgather_loop.induct)
  case (1 state data sz i)
  show ?case
  proof (cases "i < st_nranks state - 1")
    case False
    with "1.prems" have "st' = state" by (simp add: allgather_loop.simps)
    then have "st' = state\<lparr>ringSendSocket := ringSendSocket state,
                             ringRecvSocket := ringRecvSocket state\<rparr>" by simp
    then show ?thesis by blast
  next
    case True
    from "1.prems" True obtain r2 d2 st2 where
      body: "allgather_body state data sz i = Returns r2 (d2, st2)"
      by (subst (asm) allgather_loop.simps) (auto split: outcome.splits)
    from allgather_body_frame [OF body] obtain ss rs where
      st2: "st2 = state\<lparr>ringSendSocket := ss, ringRecvSocket := rs\<rparr>" by blast
    show ?thesis
    proof (cases "r2 = ncclSuccess")
      case False
      with "1.prems" True body have "st' = st2"
        by (subst (asm) allgather_loop.simps) simp
      with st2 show ?thesis by blast
    next
      case ok: True
      with "1.prems" True body have "allgather_loop st2 d2 sz (i + 1) = Returns r (d', st')"
        by (subst (asm) allgather_loop.simps) simp
      with "1.IH" [OF True body] ok obtain ss' rs' where
        "st' = st2\<lparr>ringSendSocket := ss', ringRecvSocket := rs'\<rparr>" by auto
      then have "st' = state\<lparr>ringSendSocket := ss', ringRecvSocket := rs'\<rparr>"
        using st2 by simp
      then show ?thesis by blast
    qed
  qed
qed

lemma concat_slices:
  assumes "\<forall>a\<in>set as. length a = s"
  shows "length (concat as) = length as * s"
    and "k < length as \<Longrightarrow> load (concat as) (k * s) s = as ! k"
  using assms
proof (induction as arbitrary: k)
  case Nil
  { case 1 show ?case by simp }
  { case 2 then show ?case by simp }
next
  case (Cons a as)
  { case 1 with Cons.IH(1) show ?case by simp }
  { case 2
    show ?case
    proof (cases k)
      case 0
      with 2 show ?thesis by (simp add: load_def)
    next
      case (Suc k')
      with 2 Cons.IH(2) [of k'] show ?thesis by (simp add: load_def)
    qed }
qed

lemma length_GetAddr: "length (ncclSocketGetAddr s) = sizeof_addr"
  by (simp add: ncclSocketGetAddr_def)

text \<open>The all-gather of an address table leaves the entry of the rank itself.\<close>

lemma gather_table_own:
  assumes rk: "0 \<le> st_rank st" "st_rank st < st_nranks st"
    and len: "int (length as) = st_nranks st" and el: "\<forall>a\<in>set as. length a = sizeof_addr"
    and run: "gather_table st as = Returns r (as', st')"
  shows "as' ! nat (st_rank st) = as ! nat (st_rank st)" and "length as' = length as"
    and "\<exists>ss rs. st' = st\<lparr>ringSendSocket := ss, ringRecvSocket := rs\<rparr>"
proof -
  from run obtain d' where
    ag: "bootstrapAllGather st (concat as) (int sizeof_addr) = Returns r (d', st')"
    and as': "as' = map (\<lambda>k. load d' (k * sizeof_addr) sizeof_addr) [0..<length as]"
    by (auto simp: gather_table_def split: outcome.splits)
  note cs = concat_slices [OF el]
  have l: "int (length (concat as)) = st_nranks st * int sizeof_addr"
    using cs(1) len by simp
  have k: "nat (st_rank st) < length as" using rk len by linarith
  from allgather_loop_own_slice [OF rk _ _ l ag [unfolded bootstrapAllGather_def]]
  have own: "load d' (nat (st_rank st) * sizeof_addr) sizeof_addr
           = load (concat as) (nat (st_rank st) * sizeof_addr) sizeof_addr"
    by simp
  show "as' ! nat (st_rank st) = as ! nat (st_rank st)"
    using k own cs(2) [OF k] by (simp add: as')
  show "length as' = length as" by (simp add: as')
  show "\<exists>ss rs. st' = st\<lparr>ringSendSocket := ss, ringRecvSocket := rs\<rparr>"
    using allgather_loop_frame [OF ag [unfolded bootstrapAllGather_def]] .
qed

lemma init_tables_own:
  assumes rk: "0 \<le> st_rank st" "st_rank st < st_nranks st"
    and run: "init_tables st ifAddr binds proxyInit conns = Returns ncclSuccess (st', pp, conns')"
  shows "\<exists>proxy. pp = Live proxy
           \<and> addr_at (peerCommAddresses st') (st_rank st) = Some (ncclSocketGetAddr (listenSock st))
           \<and> addr_at (peerProxyAddresses st') (st_rank st) = Some (ncclSocketGetAddr proxy)
           \<and> listenSock st' = listenSock st"
proof -
  let ?n = "st_nranks st" and ?k = "nat (st_rank st)"
  let ?z = "replicate (nat ?n) (replicate sizeof_addr (0::byte))"
  let ?a = "ncclSocketGetAddr (listenSock st)"
  let ?as = "?z[?k := ?a]"
  have n: "\<not> ?n < 0" using rk by simp
  have k: "?k < nat ?n" using rk by linarith
  have calloc: "ncclCalloc ?n = (ncclSuccess, Live ?z)"
    using n by (simp add: ncclCalloc_def)
  have set1: "table_set (Live ?z) (st_rank st) a = Some (?z[?k := a])" for a
    using rk by (simp add: table_set_def)
  let ?st1 = "st\<lparr>peerCommAddresses := Live ?as\<rparr>"
  have el: "\<forall>x\<in>set (?z[?k := a]). length x = sizeof_addr" if "length a = sizeof_addr" for a
    using that by (auto dest!: set_update_subset_insert [THEN subsetD])
  have len: "int (length (?z[?k := a])) = ?n" for a using rk by simp
  obtain r2 g where g: "gather_table ?st1 ?as = Returns r2 g"
    using run by (auto simp: init_tables_def calloc set1 NCCLCHECK_def split: outcome.splits)
  have r2: "r2 = ncclSuccess"
    using run by (auto simp: init_tables_def calloc set1 g NCCLCHECK_def split: if_splits)
  obtain as' st2 where g2: "g = (as', st2)" by (cases g)
  from gather_table_own [of ?st1 ?as r2 as' st2] rk len [of ?a] el [OF length_GetAddr]
    g [unfolded g2]
  have own1: "as' ! ?k = ?as ! ?k" "length as' = length ?as"
    and fr1: "\<exists>ss rs. st2 = ?st1\<lparr>ringSendSocket := ss, ringRecvSocket := rs\<rparr>"
    by simp_all
  let ?st3 = "st2\<lparr>peerCommAddresses := Live as', peerProxyAddresses := Live ?z\<rparr>"
  obtain r4 proxy binds' where li:
    "ncclSocketListen (ncclSocketInit ifAddr (st_magic st)) binds = (r4, proxy, binds')"
    by (cases "ncclSocketListen (ncclSocketInit ifAddr (st_magic st)) binds") auto
  have r4: "r4 = ncclSuccess"
    using run
    by (auto simp: init_tables_def calloc set1 g g2 r2 li NCCLCHECK_def split: if_splits)
  let ?p = "ncclSocketGetAddr proxy"
  let ?ps = "?z[?k := ?p]"
  let ?st4 = "st2\<lparr>peerCommAddresses := Live as', peerProxyAddresses := Live ?ps\<rparr>"
  obtain r5 g' where g': "gather_table ?st4 ?ps = Returns r5 g'"
    using run
    by (auto simp: init_tables_def calloc set1 g g2 r2 li r4 NCCLCHECK_def
             split: outcome.splits)
  have r5: "r5 = ncclSuccess"
    using run
    by (auto simp: init_tables_def calloc set1 g g2 r2 li r4 g' NCCLCHECK_def split: if_splits)
  obtain ps' st5 where g5: "g' = (ps', st5)" by (cases g')
  have res: "st' = st5\<lparr>peerProxyAddresses := Live ps'\<rparr>" "pp = Live proxy"
    using run
    by (auto simp: init_tables_def calloc set1 g g2 r2 li r4 g' g5 r5 NCCLCHECK_def
             split: if_splits)
  have rk4: "st_rank ?st4 = st_rank st" "st_nranks ?st4 = st_nranks st"
    using fr1 by auto
  from gather_table_own [of ?st4 ?ps r5 ps' st5] rk rk4 len [of ?p] el [OF length_GetAddr]
    g' [unfolded g5]
  have own2: "ps' ! ?k = ?ps ! ?k" "length ps' = length ?ps"
    and fr2: "\<exists>ss rs. st5 = ?st4\<lparr>ringSendSocket := ss, ringRecvSocket := rs\<rparr>"
    by simp_all
  have c: "peerCommAddresses st' = Live as'" "peerProxyAddresses st' = Live ps'"
    "listenSock st' = listenSock st"
    using res(1) fr2 fr1 by auto
  have "addr_at (Live as') (st_rank st) = Some ?a"
    using own1 k rk by (simp add: addr_at_def)
  moreover have "addr_at (Live ps') (st_rank st) = Some ?p"
    using own2 k rk by (simp add: addr_at_def)
  ultimately show ?thesis using c res(2) by simp
qed

lemma accept_addr:
  "ncclSocketAccept s l = (r, s', l') \<Longrightarrow> addr l' = addr l"
  by (auto simp: ncclSocketAccept_def split: if_splits list.splits)

lemma bootstrapInit_tail:
  assumes "bootstrapInit handle rank nranks flag ifAddr binds proxyInit = Returns ncclSuccess X"
  shows "\<exists>st binds2 conns. init_tables st ifAddr binds2 proxyInit conns = Returns ncclSuccess X
           \<and> st_rank st = rank \<and> st_nranks st = nranks"
  using assms
  apply (auto simp: bootstrapInit_def NCCLCHECK_def Let_def split: prod.splits if_splits)
  apply (intro exI conjI)
    apply assumption
   apply simp_all
  done

text \<open>
  C7. For a rank in \<open>[0, nranks)\<close>, none of the receive slices
  \<open>(rank - i - 1 + nranks) mod nranks\<close>, \<open>0 \<le> i < nranks - 1\<close>, is the rank itself;
  whatever \<open>bootstrapAllGather\<close> returns, the slice of the rank in the buffer is the one
  the caller wrote; and after an Init that succeeds the entry of the rank in
  \<open>peerCommAddresses\<close> is the address of its \<open>listenSock\<close> and its entry in
  \<open>peerProxyAddresses\<close> is the address of its proxy socket.
\<close>

theorem own_slice_frame:
  assumes "0 \<le> rank" and "rank < nranks"
  shows "(0 \<le> i \<and> i < nranks - 1 \<longrightarrow> (rank - i - 1 + nranks) smod nranks \<noteq> rank)
    \<and> (st_rank st = rank \<and> st_nranks st = nranks \<and> 0 \<le> sz
          \<and> int (length data) = nranks * sz
          \<and> bootstrapAllGather st data sz = Returns r (data', st')
        \<longrightarrow> load data' (nat rank * nat sz) (nat sz) = load data (nat rank * nat sz) (nat sz))
    \<and> (bootstrapInit handle rank nranks flag ifAddr binds proxyInit
           = Returns ncclSuccess (ist, pp, conns)
        \<longrightarrow> (\<exists>proxy. pp = Live proxy
              \<and> addr_at (peerCommAddresses ist) rank = Some (ncclSocketGetAddr (listenSock ist))
              \<and> addr_at (peerProxyAddresses ist) rank = Some (ncclSocketGetAddr proxy)))"
proof (intro conjI impI)
  assume "0 \<le> i \<and> i < nranks - 1"
  then show "(rank - i - 1 + nranks) smod nranks \<noteq> rank"
    using slice_bounds(1,3) [OF assms, of i] by simp
next
  assume a: "st_rank st = rank \<and> st_nranks st = nranks \<and> 0 \<le> sz
          \<and> int (length data) = nranks * sz
          \<and> bootstrapAllGather st data sz = Returns r (data', st')"
  then have "allgather_loop st data sz 0 = Returns r (data', st')"
    by (simp add: bootstrapAllGather_def)
  from allgather_loop_own_slice [OF _ _ _ _ _ this] a assms
  show "load data' (nat rank * nat sz) (nat sz) = load data (nat rank * nat sz) (nat sz)"
    by simp
next
  assume "bootstrapInit handle rank nranks flag ifAddr binds proxyInit
           = Returns ncclSuccess (ist, pp, conns)"
  from bootstrapInit_tail [OF this] obtain st0 binds2 conns0 where
    t: "init_tables st0 ifAddr binds2 proxyInit conns0 = Returns ncclSuccess (ist, pp, conns)"
    and rk: "st_rank st0 = rank" "st_nranks st0 = nranks"
    by blast
  from init_tables_own [OF _ _ t] rk assms
  show "\<exists>proxy. pp = Live proxy
              \<and> addr_at (peerCommAddresses ist) rank = Some (ncclSocketGetAddr (listenSock ist))
              \<and> addr_at (peerProxyAddresses ist) rank = Some (ncclSocketGetAddr proxy)"
    by auto
qed

lemma init_example_run:
  "bootstrapInit \<lparr>h_addr = pad_addr 1, h_magic = 7\<rparr> 1 2 0 (pad_addr 9) init_binds ncclSuccess
     = Returns ncclSuccess (init_example_state, Live init_example_proxy, [init_example_conn])"
  by code_simp

lemma gather_example_run:
  "bootstrapAllGather gather_example [0, 32] 1 = Returns ncclSuccess ([16, 32], gather_example_final)"
  by code_simp

theorem own_slice_frame_witness:
  "(0::int) \<le> 1 \<and> (1::int) < 2
   \<and> (0::int) \<le> 0 \<and> (0::int) < 2 - 1 \<and> (1 - 0 - 1 + 2) smod 2 \<noteq> (1::int)
   \<and> st_rank gather_example = 1 \<and> st_nranks gather_example = 2 \<and> (0::int) \<le> 1
   \<and> int (length [0, 32 :: byte]) = 2 * 1
   \<and> bootstrapAllGather gather_example [0, 32] 1
       = Returns ncclSuccess ([16, 32], gather_example_final)
   \<and> load [16, 32 :: byte] (nat 1 * nat 1) (nat 1) = load [0, 32] (nat 1 * nat 1) (nat 1)
   \<and> bootstrapInit \<lparr>h_addr = pad_addr 1, h_magic = 7\<rparr> 1 2 0 (pad_addr 9) init_binds ncclSuccess
       = Returns ncclSuccess (init_example_state, Live init_example_proxy, [init_example_conn])
   \<and> addr_at (peerCommAddresses init_example_state) 1
       = Some (ncclSocketGetAddr (listenSock init_example_state))
   \<and> addr_at (peerProxyAddresses init_example_state) 1
       = Some (ncclSocketGetAddr init_example_proxy)"
  using own_slice_frame [of 1 2 0 gather_example 1 "[0, 32]" ncclSuccess "[16, 32]"
      gather_example_final
      "\<lparr>h_addr = pad_addr 1, h_magic = 7\<rparr>" 0 "pad_addr 9" init_binds ncclSuccess
      init_example_state "Live init_example_proxy" "[init_example_conn]"]
    init_example_run gather_example_run
  by (simp add: gather_example_def init_example_state_def)

declare collect_loop.simps [simp del] distribute_loop.simps [simp del]

lemma sizeof_info_val: "int sizeof_info = 64" "sizeof_info = 64"
  by (simp_all add: sizeof_info_def sizeof_addr_def)

text \<open>A check-in that arrives whole is accepted and read as sent.\<close>

lemma checkin_received:
  assumes opn: "\<not> closed lsock"
    and bl: "backlog lsock = (magic lsock, int_bytes (word_of_int (int sizeof_info)) @ info') # rest"
    and full: "length info' = sizeof_info" and old: "length info \<le> sizeof_info"
  shows "\<exists>sock1 sock2.
      ncclSocketAccept (ncclSocketInit [] 0) lsock
         = (ncclSuccess, sock1, lsock\<lparr>backlog := rest, ops := Suc (ops lsock)\<rparr>)
    \<and> bootstrapNetRecv sock1 info (int sizeof_info) = (ncclSuccess, info', sock2)"
proof -
  let ?w = "word_of_int (int sizeof_info) :: int32"
  let ?s1 = "(ncclSocketInit [] 0)\<lparr>rx := int_bytes ?w @ info', ops := Suc 0\<rparr>"
  have acc: "ncclSocketAccept (ncclSocketInit [] 0) lsock
         = (ncclSuccess, ?s1, lsock\<lparr>backlog := rest, ops := Suc (ops lsock)\<rparr>)"
    using opn bl by (simp add: ncclSocketAccept_def ncclSocketInit_def)
  have w: "sint ?w = int sizeof_info"
    by (intro sint_word_of_int_32) (simp_all add: sizeof_info_val)
  have st: "store info 0 info' = info'"
    using full old by (simp add: store_def)
  have "bootstrapNetRecv ?s1 info (int sizeof_info)
          = (ncclSuccess, info',
             ?s1\<lparr>rx := drop (nat (min (sint ?w) (int sizeof_info))) info',
                  ops := Suc (Suc (ops ?s1))\<rparr>)"
    using netrecv_frame [of ?s1 ?w info' info "int sizeof_info"] w full st
    by (simp add: ncclSocketInit_def)
  with acc show ?thesis by blast
qed

lemma collect_step_checkin:
  assumes opn: "\<not> closed lsock"
    and bl: "backlog lsock = (magic lsock, int_bytes (word_of_int (int sizeof_info)) @ info') # rest"
    and full: "length info' = sizeof_info" and old: "length info \<le> sizeof_info"
    and c: "c \<noteq> 0"
  shows "collect_step (lsock, c, nranks, ra, rar, info) =
    (if nranks \<noteq> info_nranks info'
     then Some (Out RootMismatch (lsock\<lparr>backlog := rest, ops := Suc (ops lsock)\<rparr>) ra rar)
     else case addr_at rar (info_rank info') of
       None \<Rightarrow> None
     | Some slot \<Rightarrow>
         if slot \<noteq> replicate sizeof_addr 0
         then Some (Out RootDuplicate (lsock\<lparr>backlog := rest, ops := Suc (ops lsock)\<rparr>) ra rar)
         else case table_set rar (info_rank info') (info_extAddressListenRoot info') of
           None \<Rightarrow> None
         | Some tr \<Rightarrow>
            (case table_set ra (info_rank info') (info_extAddressListen info') of
               None \<Rightarrow> None
             | Some ta \<Rightarrow>
                 Some (Continue (lsock\<lparr>backlog := rest, ops := Suc (ops lsock)\<rparr>, c + 1, nranks,
                                 Live ta, Live tr, info'))))"
proof -
  from checkin_received [OF opn bl full old] obtain sock1 sock2 where
    a: "ncclSocketAccept (ncclSocketInit [] 0) lsock
         = (ncclSuccess, sock1, lsock\<lparr>backlog := rest, ops := Suc (ops lsock)\<rparr>)"
    and r: "bootstrapNetRecv sock1 info (int sizeof_info) = (ncclSuccess, info', sock2)"
    by blast
  show ?thesis
    using c full
    by (simp add: collect_step_def a r ncclSocketClose_def Let_def)
qed

lemma root_from_out:
  "collect_step v = Some (Out e l ra rar) \<Longrightarrow>
   root_from v mgc = Some (e, ra, rar, [], snd (ncclSocketClose l))"
  by (simp add: root_from_def collect_loop.simps)

text \<open>
  C3. In the collect phase, after the first check-in (\<open>c \<noteq> 0\<close>), let a check-in arrive
  whole on the listening socket. If the rank count it reports is not the \<open>nranks\<close> of
  the first check-in, the service leaves through \<^verbatim>\<open>out\<close> with both tables as they were
  and no address sent. If the count agrees and the slot of its rank in
  \<open>rankAddressesRoot\<close> is not zero, the service leaves in the same way, the slot not
  overwritten.
\<close>

theorem root_collect_rejects:
  assumes "\<not> closed lsock"
    and "backlog lsock = (magic lsock, int_bytes (word_of_int (int sizeof_info)) @ info') # rest"
    and "length info' = sizeof_info" and "length info \<le> sizeof_info"
    and "c \<noteq> 0"
  shows "(info_nranks info' \<noteq> nranks \<longrightarrow>
           root_from (lsock, c, nranks, ra, rar, info) mgc =
             Some (RootMismatch, ra, rar, [],
                   lsock\<lparr>backlog := rest, closed := True, ops := Suc (Suc (ops lsock))\<rparr>))
    \<and> (info_nranks info' = nranks \<and> addr_at rar (info_rank info') = Some slot
          \<and> slot \<noteq> replicate sizeof_addr 0 \<longrightarrow>
           root_from (lsock, c, nranks, ra, rar, info) mgc =
             Some (RootDuplicate, ra, rar, [],
                   lsock\<lparr>backlog := rest, closed := True, ops := Suc (Suc (ops lsock))\<rparr>))"
proof (intro conjI impI)
  note step = collect_step_checkin [OF assms, of nranks ra rar]
  {
    assume "info_nranks info' \<noteq> nranks"
    then have "collect_step (lsock, c, nranks, ra, rar, info) =
        Some (Out RootMismatch (lsock\<lparr>backlog := rest, ops := Suc (ops lsock)\<rparr>) ra rar)"
      using step by auto
    from root_from_out [OF this]
    show "root_from (lsock, c, nranks, ra, rar, info) mgc =
             Some (RootMismatch, ra, rar, [],
                   lsock\<lparr>backlog := rest, closed := True, ops := Suc (Suc (ops lsock))\<rparr>)"
      by (simp add: ncclSocketClose_def)
  }
  {
    assume "info_nranks info' = nranks \<and> addr_at rar (info_rank info') = Some slot
          \<and> slot \<noteq> replicate sizeof_addr 0"
    then have "collect_step (lsock, c, nranks, ra, rar, info) =
        Some (Out RootDuplicate (lsock\<lparr>backlog := rest, ops := Suc (ops lsock)\<rparr>) ra rar)"
      using step by auto
    from root_from_out [OF this]
    show "root_from (lsock, c, nranks, ra, rar, info) mgc =
             Some (RootDuplicate, ra, rar, [],
                   lsock\<lparr>backlog := rest, closed := True, ops := Suc (Suc (ops lsock))\<rparr>)"
      by (simp add: ncclSocketClose_def)
  }
qed

lemma checkin_example_facts:
  "length (checkin_info 0 3 30 10) = sizeof_info"
  "length (checkin_info 1 2 32 12) = sizeof_info"
  "length (checkin_info 1 2 31 11) \<le> sizeof_info"
  "info_nranks (checkin_info 0 3 30 10) \<noteq> 2"
  "info_nranks (checkin_info 1 2 32 12) = 2"
  "info_rank (checkin_info 1 2 32 12) = 1"
  "pad_addr 31 \<noteq> replicate sizeof_addr 0"
  by code_simp+

theorem root_collect_rejects_witness:
  "root_from (root_after_first (checkin 0 3 30 10)) 7 =
     Some (RootMismatch, Live [replicate sizeof_addr 0, pad_addr 11],
           Live [replicate sizeof_addr 0, pad_addr 31], [],
           example_sock\<lparr>backlog := [], closed := True, ops := Suc (Suc (ops example_sock))\<rparr>)
   \<and> root_from (root_after_first (checkin 1 2 32 12)) 7 =
     Some (RootDuplicate, Live [replicate sizeof_addr 0, pad_addr 11],
           Live [replicate sizeof_addr 0, pad_addr 31], [],
           example_sock\<lparr>backlog := [], closed := True, ops := Suc (Suc (ops example_sock))\<rparr>)"
  using root_collect_rejects [of "example_sock\<lparr>backlog := [(7, checkin 0 3 30 10)]\<rparr>"
      "checkin_info 0 3 30 10" "[]" "checkin_info 1 2 31 11" 1 2
      "Live [replicate sizeof_addr 0, pad_addr 11]" "Live [replicate sizeof_addr 0, pad_addr 31]"
      7 "pad_addr 31"]
    root_collect_rejects [of "example_sock\<lparr>backlog := [(7, checkin 1 2 32 12)]\<rparr>"
      "checkin_info 1 2 32 12" "[]" "checkin_info 1 2 31 11" 1 2
      "Live [replicate sizeof_addr 0, pad_addr 11]" "Live [replicate sizeof_addr 0, pad_addr 31]"
      7 "pad_addr 31"]
    checkin_example_facts
  by (simp add: root_after_first_def checkin_def example_sock_def addr_at_def)

lemma distribute_send:
  "ncclSocketClose (snd (bootstrapNetSend (snd (ncclSocketConnect (ncclSocketInit dest mgc))) a
                          (int sizeof_addr)))
     = (ncclSuccess, sent_conn dest mgc a)"
  by (simp add: ncclSocketInit_def ncclSocketConnect_def bootstrapNetSend_def ncclSocketSend_def
        ncclSocketClose_def sent_conn_def)

lemma distribute_step_ok:
  "ncclSocketConnect (ncclSocketInit dest mgc) = (ncclSuccess, snd (ncclSocketConnect (ncclSocketInit dest mgc)))"
  "fst (bootstrapNetSend (snd (ncclSocketConnect (ncclSocketInit dest mgc))) a (int sizeof_addr))
     = ncclSuccess"
  by (simp_all add: ncclSocketInit_def ncclSocketConnect_def bootstrapNetSend_def ncclSocketSend_def)

text \<open>The distribute loop over full tables, from any \<open>r\<close>.\<close>

lemma distribute_loop_all:
  assumes "length ta = nat nranks" and "length tr = nat nranks"
  shows "0 \<le> r \<Longrightarrow> nat (nranks - r) = k \<Longrightarrow>
    distribute_loop (Live ta) (Live tr) nranks mgc r conns =
      Some (RootDone,
            conns @ map (\<lambda>j. sent_conn (tr ! j) mgc (ta ! ((j + 1) mod nat nranks)))
                      [nat r..<nat nranks])"
proof (induction k arbitrary: r conns)
  case 0
  then have "\<not> r < nranks" by simp
  then show ?case
    by (subst distribute_loop.simps) simp
next
  case (Suc k)
  then have lt: "r < nranks" by simp
  have nx: "(r + 1) smod nranks = (r + 1) mod nranks"
    using Suc.prems(1) lt by (simp add: smod_nonneg)
  have nxr: "0 \<le> (r + 1) mod nranks" "(r + 1) mod nranks < nranks"
    using lt Suc.prems(1) by simp_all
  have natnx: "nat ((r + 1) mod nranks) = (nat r + 1) mod nat nranks"
    using Suc.prems(1) lt by (simp add: nat_mod_distrib nat_add_distrib)
  have a1: "addr_at (Live tr) r = Some (tr ! nat r)"
    using assms lt Suc.prems(1) by (simp add: addr_at_def)
  have a2: "addr_at (Live ta) ((r + 1) mod nranks) = Some (ta ! ((nat r + 1) mod nat nranks))"
    using assms nxr natnx by (simp add: addr_at_def)
  let ?c = "sent_conn (tr ! nat r) mgc (ta ! ((nat r + 1) mod nat nranks))"
  obtain sock1 where c1: "ncclSocketConnect (ncclSocketInit (tr ! nat r) mgc) = (ncclSuccess, sock1)"
    using distribute_step_ok(1) by blast
  obtain r2 sock2 where s2:
    "bootstrapNetSend sock1 (ta ! ((nat r + 1) mod nat nranks)) (int sizeof_addr) = (r2, sock2)"
    by (cases "bootstrapNetSend sock1 (ta ! ((nat r + 1) mod nat nranks)) (int sizeof_addr)") auto
  have r2: "r2 = ncclSuccess"
    using distribute_step_ok(2) [of "tr ! nat r" mgc "ta ! ((nat r + 1) mod nat nranks)"] s2 c1
    by simp
  have cl: "ncclSocketClose sock2 = (ncclSuccess, ?c)"
    using distribute_send [of "tr ! nat r" mgc "ta ! ((nat r + 1) mod nat nranks)"] s2 c1 by simp
  have step: "distribute_loop (Live ta) (Live tr) nranks mgc r conns =
          distribute_loop (Live ta) (Live tr) nranks mgc (r + 1) (conns @ [?c])"
    using s2 r2 cl
    by (subst distribute_loop.simps) (simp add: lt Let_def nx a1 a2 c1)
  have "distribute_loop (Live ta) (Live tr) nranks mgc (r + 1) (conns @ [?c]) =
      Some (RootDone,
            (conns @ [?c]) @ map (\<lambda>j. sent_conn (tr ! j) mgc (ta ! ((j + 1) mod nat nranks)))
                      [nat (r + 1)..<nat nranks])"
    using Suc.prems by (intro Suc.IH) auto
  moreover have "[nat r..<nat nranks] = nat r # [nat (r + 1)..<nat nranks]"
    using lt Suc.prems(1) by (simp add: upt_conv_Cons nat_add_distrib)
  ultimately show ?case using step by simp
qed

text \<open>After a check-in has been stored both tables have \<open>nranks\<close> entries.\<close>

lemma collect_step_tables:
  assumes "collect_step (lsock, c, nranks, ra, rar, info) = Some (Continue (l, c', nranks', ra', rar', info'))"
    and "c = 0 \<or> (\<exists>ta tr. ra = Live ta \<and> rar = Live tr
                     \<and> length ta = nat nranks \<and> length tr = nat nranks)"
    and "0 \<le> c"
  shows "\<exists>ta tr. ra' = Live ta \<and> rar' = Live tr
                     \<and> length ta = nat nranks' \<and> length tr = nat nranks'"
    and "0 < c'"
  using assms
  by (auto simp: collect_step_def Let_def ncclCalloc_def table_set_def
           split: if_splits prod.splits option.splits ptr.splits)

lemma collect_loop_tables:
  "collect_loop v = Some (Continue (l, c', nranks', ra', rar', info')) \<Longrightarrow>
   fst (snd v) = 0 \<or> (\<exists>ta tr. fst (snd (snd (snd v))) = Live ta
                           \<and> fst (snd (snd (snd (snd v)))) = Live tr
                           \<and> length ta = nat (fst (snd (snd v)))
                           \<and> length tr = nat (fst (snd (snd v)))) \<Longrightarrow>
   0 \<le> fst (snd v) \<Longrightarrow>
   \<exists>ta tr. ra' = Live ta \<and> rar' = Live tr
           \<and> length ta = nat nranks' \<and> length tr = nat nranks'"
proof (induction v rule: collect_loop.induct)
  case (1 v)
  obtain lsock c nranks ra rar info where v: "v = (lsock, c, nranks, ra, rar, info)"
    by (cases v) auto
  from "1.prems"(1) obtain v2 where st: "collect_step v = Some (Continue v2)"
    by (subst (asm) collect_loop.simps)
       (auto split: option.splits collect_step_result.splits)
  obtain l2 c2 n2 ra2 rar2 info2 where v2: "v2 = (l2, c2, n2, ra2, rar2, info2)"
    by (cases v2) auto
  from collect_step_tables [OF st [unfolded v v2]] "1.prems"(2,3) v
  have t2: "\<exists>ta tr. ra2 = Live ta \<and> rar2 = Live tr \<and> length ta = nat n2 \<and> length tr = nat n2"
    and c2: "0 < c2" by simp_all
  show ?case
  proof (cases "c2 < n2")
    case True
    then have "collect_loop v2 = Some (Continue (l, c', nranks', ra', rar', info'))"
      using "1.prems"(1) st v2 by (subst (asm) collect_loop.simps) simp
    from "1.IH" [OF st refl _ this] True t2 c2 v2 show ?thesis by simp
  next
    case False
    then have "v2 = (l, c', nranks', ra', rar', info')"
      using "1.prems"(1) st v2 by (subst (asm) collect_loop.simps) simp
    with t2 v2 show ?thesis by simp
  qed
qed

text \<open>
  C4. Once the collect phase has taken all check-ins, the service connects to
  \<open>rankAddressesRoot[r]\<close> for \<open>r = 0, 1, \<dots>, nranks - 1\<close> in this order, sends on each
  connection the one frame holding \<open>rankAddresses[(r + 1) mod nranks]\<close> and closes it;
  these are all the connections it opens.
\<close>

theorem root_distribute_order:
  assumes "collect_loop (lsock, 0, 0, Null, Null, []) = Some (Continue (l, c, nranks, ra, rar, info))"
  shows "\<exists>ta tr. ra = Live ta \<and> rar = Live tr
           \<and> length ta = nat nranks \<and> length tr = nat nranks
           \<and> bootstrapRoot lsock mgc =
               Some (RootDone, ra, rar,
                     map (\<lambda>r. sent_conn (tr ! r) mgc (ta ! ((r + 1) mod nat nranks)))
                       [0..<nat nranks],
                     snd (ncclSocketClose l))"
proof -
  from collect_loop_tables [OF assms] obtain ta tr where
    t: "ra = Live ta" "rar = Live tr" "length ta = nat nranks" "length tr = nat nranks"
    by auto
  have d: "distribute_loop ra rar nranks mgc 0 [] =
      Some (RootDone, map (\<lambda>r. sent_conn (tr ! r) mgc (ta ! ((r + 1) mod nat nranks)))
                       [0..<nat nranks])"
    using distribute_loop_all [OF t(3,4), of 0 "nat nranks" mgc "[]"] t(1,2) by simp
  have "bootstrapRoot lsock mgc =
               Some (RootDone, ra, rar,
                     map (\<lambda>r. sent_conn (tr ! r) mgc (ta ! ((r + 1) mod nat nranks)))
                       [0..<nat nranks],
                     snd (ncclSocketClose l))"
    by (simp add: bootstrapRoot_def ncclCalloc_def root_from_def assms d)
  with t show ?thesis by blast
qed

lemma root_example_collect:
  "collect_loop (root_example_sock, 0, 0, Null, Null, []) =
     Some (Continue (root_example_sock\<lparr>backlog := [], ops := 2\<rparr>, 2, 2,
                     Live [pad_addr 10, pad_addr 11], Live [pad_addr 30, pad_addr 31],
                     checkin_info 0 2 30 10))"
  by code_simp

theorem root_distribute_order_witness:
  "collect_loop (root_example_sock, 0, 0, Null, Null, []) =
     Some (Continue (root_example_sock\<lparr>backlog := [], ops := 2\<rparr>, 2, 2,
                     Live [pad_addr 10, pad_addr 11], Live [pad_addr 30, pad_addr 31],
                     checkin_info 0 2 30 10))
   \<and> bootstrapRoot root_example_sock 7 =
       Some (RootDone, Live [pad_addr 10, pad_addr 11], Live [pad_addr 30, pad_addr 31],
             [sent_conn (pad_addr 30) 7 (pad_addr 11), sent_conn (pad_addr 31) 7 (pad_addr 10)],
             root_example_sock\<lparr>backlog := [], closed := True, ops := 3\<rparr>)"
  using root_distribute_order [OF root_example_collect, of 7] root_example_collect
  by (auto simp: ncclSocketClose_def upt_conv_Cons numeral_2_eq_2)

end
